theory Spec2Isabelle
  imports Main "HOL-Library.Word"
begin

section \<open>The behaviour-tree core of \<^verbatim>\<open>bt.h\<close> and \<^verbatim>\<open>bt.c\<close>\<close>

subsection \<open>Status codes, node types and the node structure\<close>

text \<open>
  \<^verbatim>\<open>bt_status_t\<close> has four enumerators, and a callback is typed to return one of them.
  \<^verbatim>\<open>bt_node_type_t\<close> has five; the dispatcher has a \<^verbatim>\<open>default:\<close> branch for any
  other tag, which \<open>BT_TYPE_OTHER\<close> stands for.
\<close>

datatype bt_status_t = BT_SUCCESS | BT_FAILURE | BT_RUNNING | BT_ERROR

datatype bt_node_type_t =
  BT_ACTION | BT_CONDITION | BT_SEQUENCE | BT_SELECTOR | BT_INVERTER | BT_TYPE_OTHER

text \<open>
  Nodes live in caller-owned storage and refer to one another by pointer. An address is a
  natural number and a pointer is an \<open>addr option\<close>, \<open>None\<close> being \<^verbatim>\<open>BT_NULL\<close>.
  The \<^verbatim>\<open>children\<close> field is a pointer to an array of child pointers: \<open>None\<close> when it
  is \<^verbatim>\<open>BT_NULL\<close>, otherwise the memory it points to, read by index. The two counters
  are \<^verbatim>\<open>uint16_t\<close>.

  The user's callbacks work on a state of their own (the blackboard, globals), the type
  \<open>'w\<close>. A callback is handed the node: here its address and a \<open>bt_node_view\<close>, the
  fields of the node as they are at the moment of the call, but for the three function
  pointers. A leaf callback returns a status and the new user state; a hook returns the
  new user state. Callbacks read the node and do not write its fields.
\<close>

type_synonym addr = nat

record bt_node_view =
  seen_type :: bt_node_type_t
  seen_status :: bt_status_t
  seen_children :: "(nat \<Rightarrow> addr option) option"
  seen_children_count :: "16 word"
  seen_current_child :: "16 word"
  seen_time_anchor_ms :: "32 word"
  seen_user_data :: "addr option"
  seen_blackboard :: "addr option"

record 'w bt_node_t =
  type :: bt_node_type_t
  status :: bt_status_t
  tick :: "(addr \<Rightarrow> bt_node_view \<Rightarrow> 'w \<Rightarrow> bt_status_t \<times> 'w) option"
  children :: "(nat \<Rightarrow> addr option) option"
  children_count :: "16 word"
  current_child :: "16 word"
  on_enter :: "(addr \<Rightarrow> bt_node_view \<Rightarrow> 'w \<Rightarrow> 'w) option"
  on_exit :: "(addr \<Rightarrow> bt_node_view \<Rightarrow> 'w \<Rightarrow> 'w) option"
  time_anchor_ms :: "32 word"
  user_data :: "addr option"
  blackboard :: "addr option"

text \<open>
  The state is the memory that holds the nodes (every address holds a node structure), the
  user's state, and a log of the calls the engine makes, in the order it makes them: a
  hook that is set and invoked, a leaf callback invoked, and the return of
  \<^verbatim>\<open>bt_tick_internal(child)\<close> to a parent, with the parent's address, the child's index
  and the status the child returned. The C code keeps no such log; it is what the
  properties about the order and the number of calls are stated on.
\<close>

datatype event =
  Enter addr
  | Exit addr
  | LeafCall addr
  | ChildTick addr nat bt_status_t

record 'w bt_state =
  heap :: "addr \<Rightarrow> 'w bt_node_t"
  world :: 'w
  calls :: "event list"

definition node_view :: "'w bt_node_t \<Rightarrow> bt_node_view" where
  "node_view n =
     \<lparr>seen_type = type n,
      seen_status = status n,
      seen_children = children n,
      seen_children_count = children_count n,
      seen_current_child = current_child n,
      seen_time_anchor_ms = time_anchor_ms n,
      seen_user_data = user_data n,
      seen_blackboard = blackboard n\<rparr>"

definition set_status :: "addr \<Rightarrow> bt_status_t \<Rightarrow> 'w bt_state \<Rightarrow> 'w bt_state" where
  "set_status a v s = s\<lparr>heap := (heap s)(a := (heap s a)\<lparr>status := v\<rparr>)\<rparr>"

definition set_current_child :: "addr \<Rightarrow> 16 word \<Rightarrow> 'w bt_state \<Rightarrow> 'w bt_state" where
  "set_current_child a v s = s\<lparr>heap := (heap s)(a := (heap s a)\<lparr>current_child := v\<rparr>)\<rparr>"

definition record_call :: "event \<Rightarrow> 'w bt_state \<Rightarrow> 'w bt_state" where
  "record_call e s = s\<lparr>calls := calls s @ [e]\<rparr>"

subsection \<open>Internal helpers\<close>

definition bt_call_enter :: "addr option \<Rightarrow> 'w bt_state \<Rightarrow> 'w bt_state" where
  "bt_call_enter node s =
     (case node of
        None \<Rightarrow> s
      | Some a \<Rightarrow>
          (case on_enter (heap s a) of
             None \<Rightarrow> s
           | Some f \<Rightarrow>
               record_call (Enter a) (s\<lparr>world := f a (node_view (heap s a)) (world s)\<rparr>)))"

definition bt_call_exit :: "addr option \<Rightarrow> 'w bt_state \<Rightarrow> 'w bt_state" where
  "bt_call_exit node s =
     (case node of
        None \<Rightarrow> s
      | Some a \<Rightarrow>
          (case on_exit (heap s a) of
             None \<Rightarrow> s
           | Some f \<Rightarrow>
               record_call (Exit a) (s\<lparr>world := f a (node_view (heap s a)) (world s)\<rparr>)))"

definition bt_child_at :: "'w bt_state \<Rightarrow> addr option \<Rightarrow> 16 word \<Rightarrow> addr option" where
  "bt_child_at s node index =
     (case node of
        None \<Rightarrow> None
      | Some a \<Rightarrow>
          (case children (heap s a) of
             None \<Rightarrow> None
           | Some arr \<Rightarrow>
               if index < children_count (heap s a) then arr (unat index) else None))"

subsection \<open>Construction\<close>

definition bt_init ::
  "addr option \<Rightarrow> bt_node_type_t \<Rightarrow>
   (addr \<Rightarrow> bt_node_view \<Rightarrow> 'w \<Rightarrow> bt_status_t \<times> 'w) option \<Rightarrow>
   (nat \<Rightarrow> addr option) option \<Rightarrow> 16 word \<Rightarrow> addr option \<Rightarrow> 'w bt_state \<Rightarrow> 'w bt_state" where
  "bt_init node ty tick_fn chs chs_count udata s =
     (case node of
        None \<Rightarrow> s
      | Some a \<Rightarrow>
          s\<lparr>heap := (heap s)(a :=
               \<lparr>type = ty,
                status = BT_FAILURE,
                tick = tick_fn,
                children = (if chs_count > 0 then chs else None),
                children_count = chs_count,
                current_child = 0,
                on_enter = None,
                on_exit = None,
                time_anchor_ms = 0,
                user_data = udata,
                blackboard = None\<rparr>)\<rparr>)"

subsection \<open>Arithmetic of the 16-bit loop index\<close>

lemma word16_succ:
  assumes "i < (c :: 16 word)"
  shows "unat (i + 1) = Suc (unat i)"
proof -
  have "unat i < unat c"
    using assms by (simp add: word_less_nat_alt)
  moreover have "unat c < 2 ^ 16"
    using unsigned_less [of c] by simp
  ultimately have "unat i + 1 < 2 ^ 16"
    by simp
  then show ?thesis
    by (simp add: unat_word_ariths)
qed

lemma word16_measure:
  assumes "i < (c :: 16 word)"
  shows "(65536 :: nat) - unat (i + 1) < 65536 - unat i"
proof -
  have "unat i < 65536"
    using unsigned_less [of i] by simp
  then show ?thesis
    using word16_succ [OF assms] by simp
qed

subsection \<open>The handlers\<close>

definition bt_tick_leaf :: "addr option \<Rightarrow> 'w bt_state \<Rightarrow> bt_status_t \<times> 'w bt_state" where
  "bt_tick_leaf node s =
     (case node of
        None \<Rightarrow> (BT_ERROR, s)
      | Some a \<Rightarrow>
          (case tick (heap s a) of
             None \<Rightarrow> (BT_ERROR, set_status a BT_ERROR s)
           | Some f \<Rightarrow>
               (case f a (node_view (heap s a)) (world s) of
                  (result, w') \<Rightarrow>
                    (result, set_status a result (record_call (LeafCall a) (s\<lparr>world := w'\<rparr>))))))"

text \<open>
  The handlers of the composites and of the decorator call the dispatcher on a child. They
  take it as the parameter \<open>tk\<close>; it returns \<open>None\<close> when the nesting of the tree is
  deeper than the dispatcher was allowed to recurse (see \<open>bt_tick_internal\<close>).

  The \<^verbatim>\<open>for\<close> loop of \<^verbatim>\<open>bt_tick_sequence\<close>: \<open>i\<close> and \<open>result\<close> are its local
  variables, a \<^verbatim>\<open>break\<close> returns, and the loop ends when \<open>i < children_count\<close> fails.
\<close>

function sequence_loop ::
  "(addr option \<Rightarrow> 'w bt_state \<Rightarrow> (bt_status_t \<times> 'w bt_state) option) \<Rightarrow>
   addr \<Rightarrow> 16 word \<Rightarrow> bt_status_t \<Rightarrow> 'w bt_state \<Rightarrow> (bt_status_t \<times> 'w bt_state) option" where
  "sequence_loop tk a i result s =
     (if i < children_count (heap s a) then
        (case bt_child_at s (Some a) i of
           None \<Rightarrow> Some (BT_ERROR, set_status a BT_ERROR s)
         | Some c \<Rightarrow>
             (case tk (Some c) s of
                None \<Rightarrow> None
              | Some (cs, s1) \<Rightarrow>
                  (let s2 = record_call (ChildTick a (unat i) cs) s1 in
                   if cs = BT_RUNNING then
                     Some (BT_RUNNING, set_status a BT_RUNNING (set_current_child a i s2))
                   else if cs = BT_FAILURE then
                     Some (BT_FAILURE, set_status a BT_FAILURE (set_current_child a i s2))
                   else if cs = BT_ERROR then
                     Some (BT_ERROR, set_status a BT_ERROR (set_current_child a i s2))
                   else
                     sequence_loop tk a (i + 1) result (set_current_child a (i + 1) s2))))
      else Some (result, s))"
  by pat_completeness auto
termination
  by (relation "measure (\<lambda>(tk, a, i, result, s). 65536 - unat i)")
    (auto simp: word16_measure)

definition bt_tick_sequence ::
  "(addr option \<Rightarrow> 'w bt_state \<Rightarrow> (bt_status_t \<times> 'w bt_state) option) \<Rightarrow>
   addr option \<Rightarrow> 'w bt_state \<Rightarrow> (bt_status_t \<times> 'w bt_state) option" where
  "bt_tick_sequence tk node s =
     (case node of
        None \<Rightarrow> Some (BT_ERROR, s)
      | Some a \<Rightarrow>
          (let s1 = (if status (heap s a) \<noteq> BT_RUNNING
                     then bt_call_enter node (set_current_child a 0 s) else s) in
           case sequence_loop tk a (current_child (heap s1 a)) BT_SUCCESS s1 of
             None \<Rightarrow> None
           | Some (result, s2) \<Rightarrow>
               (case (if result \<noteq> BT_RUNNING
                         \<and> current_child (heap s2 a) \<ge> children_count (heap s2 a)
                      then (BT_SUCCESS, set_status a BT_SUCCESS s2) else (result, s2)) of
                  (result, s3) \<Rightarrow>
                    Some (result,
                      if result = BT_SUCCESS \<or> result = BT_FAILURE \<or> result = BT_ERROR
                      then bt_call_exit node s3 else s3))))"

text \<open>The \<^verbatim>\<open>for\<close> loop of \<^verbatim>\<open>bt_tick_selector\<close>.\<close>

function selector_loop ::
  "(addr option \<Rightarrow> 'w bt_state \<Rightarrow> (bt_status_t \<times> 'w bt_state) option) \<Rightarrow>
   addr \<Rightarrow> 16 word \<Rightarrow> bt_status_t \<Rightarrow> 'w bt_state \<Rightarrow> (bt_status_t \<times> 'w bt_state) option" where
  "selector_loop tk a i result s =
     (if i < children_count (heap s a) then
        (case bt_child_at s (Some a) i of
           None \<Rightarrow> Some (BT_ERROR, set_status a BT_ERROR s)
         | Some c \<Rightarrow>
             (case tk (Some c) s of
                None \<Rightarrow> None
              | Some (cs, s1) \<Rightarrow>
                  (let s2 = record_call (ChildTick a (unat i) cs) s1 in
                   if cs = BT_RUNNING then
                     Some (BT_RUNNING, set_status a BT_RUNNING (set_current_child a i s2))
                   else if cs = BT_SUCCESS then
                     Some (BT_SUCCESS, set_status a BT_SUCCESS (set_current_child a i s2))
                   else if cs = BT_ERROR then
                     Some (BT_ERROR, set_status a BT_ERROR (set_current_child a i s2))
                   else
                     selector_loop tk a (i + 1) result (set_current_child a (i + 1) s2))))
      else Some (result, s))"
  by pat_completeness auto
termination
  by (relation "measure (\<lambda>(tk, a, i, result, s). 65536 - unat i)")
    (auto simp: word16_measure)

definition bt_tick_selector ::
  "(addr option \<Rightarrow> 'w bt_state \<Rightarrow> (bt_status_t \<times> 'w bt_state) option) \<Rightarrow>
   addr option \<Rightarrow> 'w bt_state \<Rightarrow> (bt_status_t \<times> 'w bt_state) option" where
  "bt_tick_selector tk node s =
     (case node of
        None \<Rightarrow> Some (BT_ERROR, s)
      | Some a \<Rightarrow>
          (let s1 = (if status (heap s a) \<noteq> BT_RUNNING
                     then bt_call_enter node (set_current_child a 0 s) else s) in
           case selector_loop tk a (current_child (heap s1 a)) BT_FAILURE s1 of
             None \<Rightarrow> None
           | Some (result, s2) \<Rightarrow>
               (case (if result \<noteq> BT_RUNNING
                         \<and> current_child (heap s2 a) \<ge> children_count (heap s2 a)
                      then (BT_FAILURE, set_status a BT_FAILURE s2) else (result, s2)) of
                  (result, s3) \<Rightarrow>
                    Some (result,
                      if result = BT_SUCCESS \<or> result = BT_FAILURE \<or> result = BT_ERROR
                      then bt_call_exit node s3 else s3))))"

definition bt_tick_inverter ::
  "(addr option \<Rightarrow> 'w bt_state \<Rightarrow> (bt_status_t \<times> 'w bt_state) option) \<Rightarrow>
   addr option \<Rightarrow> 'w bt_state \<Rightarrow> (bt_status_t \<times> 'w bt_state) option" where
  "bt_tick_inverter tk node s =
     (case node of
        None \<Rightarrow> Some (BT_ERROR, s)
      | Some a \<Rightarrow>
          if children_count (heap s a) \<noteq> 1 then Some (BT_ERROR, s)
          else
            (let child = bt_child_at s node 0;
                 s1 = (if status (heap s a) \<noteq> BT_RUNNING then bt_call_enter node s else s) in
             case child of
               None \<Rightarrow> Some (BT_ERROR, s1)
             | Some c \<Rightarrow>
                 (case tk child s1 of
                    None \<Rightarrow> None
                  | Some (cs, s2) \<Rightarrow>
                      (let s3 = record_call (ChildTick a 0 cs) s2;
                           result = (if cs = BT_SUCCESS then BT_FAILURE
                                     else if cs = BT_FAILURE then BT_SUCCESS
                                     else cs);
                           s4 = set_status a result s3 in
                       Some (result,
                         if result = BT_SUCCESS \<or> result = BT_FAILURE \<or> result = BT_ERROR
                         then bt_call_exit node s4 else s4)))))"

subsection \<open>The dispatcher\<close>

text \<open>
  \<^verbatim>\<open>bt_tick_internal\<close> and the handlers call one another, as deep as the tree is nested.
  The first argument bounds that depth: the dispatcher may be entered that many times on a
  path from the root, and returns \<open>None\<close> when the bound is used up. A tree whose child
  pointers form a cycle uses up every bound.
\<close>

primrec bt_tick_internal ::
  "nat \<Rightarrow> addr option \<Rightarrow> 'w bt_state \<Rightarrow> (bt_status_t \<times> 'w bt_state) option" where
  "bt_tick_internal 0 node s = None"
| "bt_tick_internal (Suc n) node s =
     (case node of
        None \<Rightarrow> Some (BT_ERROR, s)
      | Some a \<Rightarrow>
          (case type (heap s a) of
             BT_ACTION \<Rightarrow> Some (bt_tick_leaf node s)
           | BT_CONDITION \<Rightarrow> Some (bt_tick_leaf node s)
           | BT_SEQUENCE \<Rightarrow> bt_tick_sequence (bt_tick_internal n) node s
           | BT_SELECTOR \<Rightarrow> bt_tick_selector (bt_tick_internal n) node s
           | BT_INVERTER \<Rightarrow> bt_tick_inverter (bt_tick_internal n) node s
           | BT_TYPE_OTHER \<Rightarrow> Some (BT_ERROR, set_status a BT_ERROR s)))"

definition bt_tick ::
  "nat \<Rightarrow> addr option \<Rightarrow> 'w bt_state \<Rightarrow> (bt_status_t \<times> 'w bt_state) option" where
  "bt_tick n root s =
     (if root \<noteq> None then bt_tick_internal n root s else Some (BT_ERROR, s))"

subsection \<open>Tree shape, reachability and what a tick may change\<close>

text \<open>
  \<open>kids h a\<close> are the nodes that the child slots of \<open>a\<close> refer to, \<open>reach h a\<close> is
  \<open>a\<close> with all its descendants, and \<open>nested_within n h a\<close> says that no path of child
  references from \<open>a\<close> visits more than \<open>n\<close> nodes; no cycle is reachable from such a node.
  \<open>only_bookkeeping n n'\<close> says that \<open>n'\<close> is \<open>n\<close> except for \<open>status\<close> and
  \<open>current_child\<close>, and \<open>frame R s s'\<close> that from \<open>s\<close> to \<open>s'\<close> nodes changed in
  those two fields only, nodes outside \<open>R\<close> not at all, and the new calls come from nodes
  of \<open>R\<close>.
\<close>

definition kids :: "(addr \<Rightarrow> 'w bt_node_t) \<Rightarrow> addr \<Rightarrow> addr list" where
  "kids h a =
     (case children (h a) of
        None \<Rightarrow> []
      | Some arr \<Rightarrow>
          List.map_filter arr [0..<unat (children_count (h a))])"

inductive_set reach :: "(addr \<Rightarrow> 'w bt_node_t) \<Rightarrow> addr \<Rightarrow> addr set"
  for h :: "addr \<Rightarrow> 'w bt_node_t" and a :: addr where
  self: "a \<in> reach h a"
| child: "b \<in> reach h a \<Longrightarrow> c \<in> set (kids h b) \<Longrightarrow> c \<in> reach h a"

fun nested_within :: "nat \<Rightarrow> (addr \<Rightarrow> 'w bt_node_t) \<Rightarrow> addr \<Rightarrow> bool" where
  "nested_within 0 h a = False"
| "nested_within (Suc n) h a = (\<forall>c \<in> set (kids h a). nested_within n h c)"

definition only_bookkeeping :: "'w bt_node_t \<Rightarrow> 'w bt_node_t \<Rightarrow> bool" where
  "only_bookkeeping n n' = (n' = n\<lparr>status := status n', current_child := current_child n'\<rparr>)"

fun ev_node :: "event \<Rightarrow> addr" where
  "ev_node (Enter a) = a"
| "ev_node (Exit a) = a"
| "ev_node (LeafCall a) = a"
| "ev_node (ChildTick a i cs) = a"

definition frame :: "addr set \<Rightarrow> 'w bt_state \<Rightarrow> 'w bt_state \<Rightarrow> bool" where
  "frame R s s' =
     ((\<forall>x. only_bookkeeping (heap s x) (heap s' x)) \<and>
      (\<forall>x. x \<notin> R \<longrightarrow> heap s' x = heap s x) \<and>
      (\<exists>evs. calls s' = calls s @ evs \<and> ev_node ` set evs \<subseteq> R))"

lemma kids_iff:
  "c \<in> set (kids h a) \<longleftrightarrow>
     (\<exists>arr i. children (h a) = Some arr \<and> i < unat (children_count (h a)) \<and> arr i = Some c)"
proof (cases "children (h a)")
  case None
  then show ?thesis by (simp add: kids_def)
next
  case (Some arr)
  then show ?thesis by (force simp: kids_def List.map_filter_def)
qed

lemma only_bookkeeping_refl: "only_bookkeeping n n"
  by (simp add: only_bookkeeping_def)

lemma only_bookkeeping_trans:
  "only_bookkeeping n n' \<Longrightarrow> only_bookkeeping n' n'' \<Longrightarrow> only_bookkeeping n n''"
  unfolding only_bookkeeping_def
  by (metis (no_types) bt_node_t.surjective bt_node_t.update_convs(2,6) bt_node_t.select_convs)

lemma only_bookkeeping_fields:
  assumes "only_bookkeeping n n'"
  shows "type n' = type n" "tick n' = tick n" "children n' = children n"
    "children_count n' = children_count n" "on_enter n' = on_enter n" "on_exit n' = on_exit n"
    "time_anchor_ms n' = time_anchor_ms n" "user_data n' = user_data n"
    "blackboard n' = blackboard n"
  using assms unfolding only_bookkeeping_def
  by (metis bt_node_t.select_convs bt_node_t.surjective bt_node_t.update_convs(2,6))+

subsection \<open>The common shape of the two composites\<close>

text \<open>
  \<^verbatim>\<open>bt_tick_sequence\<close> and \<^verbatim>\<open>bt_tick_selector\<close> are the same code up to the status on
  which the loop advances: \<open>BT_SUCCESS\<close> for a sequence, \<open>BT_FAILURE\<close> for a selector. On
  any other child status the loop stops with that status. \<open>composite_loop\<close> and
  \<open>composite_tick\<close> take the advancing status as a parameter; they are proved equal to
  the two handlers and carry the proofs that hold for both.
\<close>

function composite_loop ::
  "bt_status_t \<Rightarrow> (addr option \<Rightarrow> 'w bt_state \<Rightarrow> (bt_status_t \<times> 'w bt_state) option) \<Rightarrow>
   addr \<Rightarrow> 16 word \<Rightarrow> bt_status_t \<Rightarrow> 'w bt_state \<Rightarrow> (bt_status_t \<times> 'w bt_state) option" where
  "composite_loop adv tk a i result s =
     (if i < children_count (heap s a) then
        (case bt_child_at s (Some a) i of
           None \<Rightarrow> Some (BT_ERROR, set_status a BT_ERROR s)
         | Some c \<Rightarrow>
             (case tk (Some c) s of
                None \<Rightarrow> None
              | Some (cs, s1) \<Rightarrow>
                  (let s2 = record_call (ChildTick a (unat i) cs) s1 in
                   if cs \<noteq> adv then
                     Some (cs, set_status a cs (set_current_child a i s2))
                   else
                     composite_loop adv tk a (i + 1) result (set_current_child a (i + 1) s2))))
      else Some (result, s))"
  by pat_completeness auto
termination
  by (relation "measure (\<lambda>(adv, tk, a, i, result, s). 65536 - unat i)")
    (auto simp: word16_measure)

declare composite_loop.simps [simp del]
declare sequence_loop.simps [simp del]
declare selector_loop.simps [simp del]

definition composite_tick ::
  "bt_status_t \<Rightarrow> (addr option \<Rightarrow> 'w bt_state \<Rightarrow> (bt_status_t \<times> 'w bt_state) option) \<Rightarrow>
   addr \<Rightarrow> 'w bt_state \<Rightarrow> (bt_status_t \<times> 'w bt_state) option" where
  "composite_tick adv tk a s =
     (let s1 = (if status (heap s a) \<noteq> BT_RUNNING
                then bt_call_enter (Some a) (set_current_child a 0 s) else s) in
      case composite_loop adv tk a (current_child (heap s1 a)) adv s1 of
        None \<Rightarrow> None
      | Some (result, s2) \<Rightarrow>
          (case (if result \<noteq> BT_RUNNING
                    \<and> current_child (heap s2 a) \<ge> children_count (heap s2 a)
                 then (adv, set_status a adv s2) else (result, s2)) of
             (result, s3) \<Rightarrow>
               Some (result,
                 if result = BT_SUCCESS \<or> result = BT_FAILURE \<or> result = BT_ERROR
                 then bt_call_exit (Some a) s3 else s3)))"

lemma sequence_loop_composite:
  "sequence_loop tk a i result s = composite_loop BT_SUCCESS tk a i result s"
proof (induction tk a i result s rule: sequence_loop.induct)
  case (1 tk a i result s)
  show ?case
    apply (subst sequence_loop.simps)
    apply (subst composite_loop.simps)
    using "1.IH"
    by (auto split: option.splits simp: Let_def intro: bt_status_t.exhaust)
qed

lemma selector_loop_composite:
  "selector_loop tk a i result s = composite_loop BT_FAILURE tk a i result s"
proof (induction tk a i result s rule: selector_loop.induct)
  case (1 tk a i result s)
  show ?case
    apply (subst selector_loop.simps)
    apply (subst composite_loop.simps)
    using "1.IH"
    by (auto split: option.splits simp: Let_def intro: bt_status_t.exhaust)
qed

lemma bt_tick_sequence_composite:
  "bt_tick_sequence tk (Some a) s = composite_tick BT_SUCCESS tk a s"
  by (simp add: bt_tick_sequence_def composite_tick_def sequence_loop_composite)

lemma bt_tick_selector_composite:
  "bt_tick_selector tk (Some a) s = composite_tick BT_FAILURE tk a s"
  by (simp add: bt_tick_selector_def composite_tick_def selector_loop_composite)

subsection \<open>Properties of frames, reachability and nesting\<close>

lemma frame_refl: "frame R s s"
  by (simp add: frame_def only_bookkeeping_refl)

lemma frame_trans:
  assumes "frame R s s'" and "frame R s' s''"
  shows "frame R s s''"
proof -
  from assms(1) obtain e1 where
    b1: "\<And>x. only_bookkeeping (heap s x) (heap s' x)" and
    u1: "\<And>x. x \<notin> R \<Longrightarrow> heap s' x = heap s x" and
    e1: "calls s' = calls s @ e1" "ev_node ` set e1 \<subseteq> R"
    unfolding frame_def by blast
  from assms(2) obtain e2 where
    b2: "\<And>x. only_bookkeeping (heap s' x) (heap s'' x)" and
    u2: "\<And>x. x \<notin> R \<Longrightarrow> heap s'' x = heap s' x" and
    e2: "calls s'' = calls s' @ e2" "ev_node ` set e2 \<subseteq> R"
    unfolding frame_def by blast
  have "calls s'' = calls s @ (e1 @ e2)" "ev_node ` set (e1 @ e2) \<subseteq> R"
    using e1 e2 by auto
  then have "\<exists>evs. calls s'' = calls s @ evs \<and> ev_node ` set evs \<subseteq> R"
    by blast
  moreover have "\<forall>x. only_bookkeeping (heap s x) (heap s'' x)"
    using only_bookkeeping_trans [OF b1 b2] by simp
  moreover have "\<forall>x. x \<notin> R \<longrightarrow> heap s'' x = heap s x"
    using u1 u2 by simp
  ultimately show ?thesis
    unfolding frame_def by simp
qed

lemma frame_mono:
  assumes "frame R s s'" and "R \<subseteq> R'"
  shows "frame R' s s'"
proof -
  from assms(1) obtain e1 where
    b1: "\<forall>x. only_bookkeeping (heap s x) (heap s' x)" and
    u1: "\<And>x. x \<notin> R \<Longrightarrow> heap s' x = heap s x" and
    e1: "calls s' = calls s @ e1" "ev_node ` set e1 \<subseteq> R"
    unfolding frame_def by blast
  have "ev_node ` set e1 \<subseteq> R'"
    using e1(2) assms(2) by (rule subset_trans)
  with e1(1) have "\<exists>evs. calls s' = calls s @ evs \<and> ev_node ` set evs \<subseteq> R'"
    by blast
  moreover have "\<forall>x. x \<notin> R' \<longrightarrow> heap s' x = heap s x"
    using u1 assms(2) by (simp add: subset_iff) blast
  ultimately show ?thesis
    using b1 unfolding frame_def by simp
qed

lemma frame_set_status: "a \<in> R \<Longrightarrow> frame R s (set_status a v s)"
  by (auto simp: frame_def set_status_def only_bookkeeping_def)

lemma frame_set_current_child: "a \<in> R \<Longrightarrow> frame R s (set_current_child a v s)"
  by (auto simp: frame_def set_current_child_def only_bookkeeping_def)

lemma frame_record_call: "ev_node e \<in> R \<Longrightarrow> frame R s (record_call e s)"
  by (auto simp: frame_def record_call_def only_bookkeeping_def)

lemma frame_world: "frame R s (s\<lparr>world := w\<rparr>)"
  by (auto simp: frame_def only_bookkeeping_def)

lemma frame_call_enter:
  assumes "a \<in> R"
  shows "frame R s (bt_call_enter (Some a) s)"
proof (cases "on_enter (heap s a)")
  case None
  then show ?thesis by (simp add: bt_call_enter_def frame_refl)
next
  case (Some f)
  have "frame R s (record_call (Enter a) (s\<lparr>world := f a (node_view (heap s a)) (world s)\<rparr>))"
    by (rule frame_trans [OF frame_world frame_record_call]) (simp add: assms)
  with Some show ?thesis by (simp add: bt_call_enter_def)
qed

lemma frame_call_exit:
  assumes "a \<in> R"
  shows "frame R s (bt_call_exit (Some a) s)"
proof (cases "on_exit (heap s a)")
  case None
  then show ?thesis by (simp add: bt_call_exit_def frame_refl)
next
  case (Some f)
  have "frame R s (record_call (Exit a) (s\<lparr>world := f a (node_view (heap s a)) (world s)\<rparr>))"
    by (rule frame_trans [OF frame_world frame_record_call]) (simp add: assms)
  with Some show ?thesis by (simp add: bt_call_exit_def)
qed

lemma kids_cong:
  assumes "only_bookkeeping (h a) (h' a)"
  shows "kids h' a = kids h a"
  using only_bookkeeping_fields(3,4) [OF assms] by (simp add: kids_def cong: option.case_cong)

lemma reach_kids_eq:
  assumes "\<And>x. kids h' x = kids h x"
  shows "reach h' a = reach h a"
proof -
  have "b \<in> reach h a \<Longrightarrow> b \<in> reach h' a" for b
    by (induction rule: reach.induct) (auto intro: reach.intros simp: assms)
  moreover have "b \<in> reach h' a \<Longrightarrow> b \<in> reach h a" for b
    by (induction rule: reach.induct) (auto intro: reach.intros simp: assms)
  ultimately show ?thesis by blast
qed

lemma nested_kids_eq:
  assumes "\<And>x. kids h' x = kids h x"
  shows "nested_within n h' a = nested_within n h a"
  by (induction n arbitrary: a) (simp_all add: assms)

lemma frame_kids: "frame R s s' \<Longrightarrow> kids (heap s') x = kids (heap s) x"
  by (simp add: frame_def kids_cong)

lemma frame_reach: "frame R s s' \<Longrightarrow> reach (heap s') a = reach (heap s) a"
  by (rule reach_kids_eq) (rule frame_kids)


lemma reach_kid_subset:
  assumes "c \<in> set (kids h a)"
  shows "reach h c \<subseteq> reach h a"
proof
  fix b assume "b \<in> reach h c"
  then show "b \<in> reach h a"
  proof (induction rule: reach.induct)
    case self
    show ?case using assms by (blast intro: reach.intros)
  next
    case (child b c')
    then show ?case by (blast intro: reach.intros)
  qed
qed

lemma child_at_kids:
  "bt_child_at s (Some a) i = Some c \<Longrightarrow> c \<in> set (kids (heap s) a)"
  by (auto simp: bt_child_at_def kids_iff word_less_nat_alt split: option.splits if_splits)

lemma nested_mono: "nested_within n h a \<Longrightarrow> n \<le> m \<Longrightarrow> nested_within m h a"
proof (induction n arbitrary: m a)
  case 0
  then show ?case by simp
next
  case (Suc n)
  then obtain m' where "m = Suc m'" "n \<le> m'"
    by (cases m) auto
  with Suc show ?case by auto
qed

lemma nested_reach:
  assumes "b \<in> reach h a" and "nested_within n h a"
  shows "nested_within n h b"
  using assms
proof (induction rule: reach.induct)
  case self
  then show ?case by simp
next
  case (child b c)
  then have nb: "nested_within n h b" by simp
  then obtain m where "n = Suc m" by (cases n) auto
  with nb child.hyps(2) have "nested_within m h c" by auto
  then show ?case using \<open>n = Suc m\<close> nested_mono [of m h c "Suc m"] by simp
qed

lemma nested_acyclic:
  "nested_within n h a \<Longrightarrow> c \<in> set (kids h a) \<Longrightarrow> a \<notin> reach h c"
proof (induction n arbitrary: a c)
  case 0
  then show ?case by simp
next
  case (Suc n)
  show ?case
  proof
    assume ac: "a \<in> reach h c"
    from Suc.prems have nc: "nested_within n h c" by auto
    from nested_reach [OF ac nc] have "nested_within n h a" .
    from Suc.IH [OF this Suc.prems(2)] ac show False by simp
  qed
qed

subsection \<open>The loop of a composite: its cases and its frame\<close>

lemma frame_heap_outside: "frame R s s' \<Longrightarrow> x \<notin> R \<Longrightarrow> heap s' x = heap s x"
  by (simp add: frame_def)

lemma frame_bookkeeping: "frame R s s' \<Longrightarrow> only_bookkeeping (heap s x) (heap s' x)"
  by (simp add: frame_def)

lemma frame_calls:
  "frame R s s' \<Longrightarrow> \<exists>evs. calls s' = calls s @ evs \<and> ev_node ` set evs \<subseteq> R"
  by (simp add: frame_def)

definition tk_frames ::
  "(addr option \<Rightarrow> 'w bt_state \<Rightarrow> (bt_status_t \<times> 'w bt_state) option) \<Rightarrow> bool" where
  "tk_frames tk =
     (\<forall>c s r s'. tk (Some c) s = Some (r, s') \<longrightarrow> frame (reach (heap s) c) s s')"

lemma tk_framesD:
  "tk_frames tk \<Longrightarrow> tk (Some c) s = Some (r, s') \<Longrightarrow> frame (reach (heap s) c) s s'"
  by (simp add: tk_frames_def)

lemma composite_loop_exit:
  "\<not> i < children_count (heap s a) \<Longrightarrow> composite_loop adv tk a i result s = Some (result, s)"
  by (subst composite_loop.simps) simp

lemma composite_loop_missing:
  "i < children_count (heap s a) \<Longrightarrow> bt_child_at s (Some a) i = None \<Longrightarrow>
   composite_loop adv tk a i result s = Some (BT_ERROR, set_status a BT_ERROR s)"
  by (subst composite_loop.simps) simp

lemma composite_loop_fuel:
  "i < children_count (heap s a) \<Longrightarrow> bt_child_at s (Some a) i = Some c \<Longrightarrow>
   tk (Some c) s = None \<Longrightarrow> composite_loop adv tk a i result s = None"
  by (subst composite_loop.simps) simp

lemma composite_loop_stop:
  "i < children_count (heap s a) \<Longrightarrow> bt_child_at s (Some a) i = Some c \<Longrightarrow>
   tk (Some c) s = Some (cs, s1) \<Longrightarrow> cs \<noteq> adv \<Longrightarrow>
   composite_loop adv tk a i result s =
     Some (cs, set_status a cs (set_current_child a i (record_call (ChildTick a (unat i) cs) s1)))"
  by (subst composite_loop.simps) simp

lemma composite_loop_advance:
  "i < children_count (heap s a) \<Longrightarrow> bt_child_at s (Some a) i = Some c \<Longrightarrow>
   tk (Some c) s = Some (adv, s1) \<Longrightarrow>
   composite_loop adv tk a i result s =
     composite_loop adv tk a (i + 1) result
       (set_current_child a (i + 1) (record_call (ChildTick a (unat i) adv) s1))"
  by (subst composite_loop.simps) simp

text \<open>The cases of one round of the loop, as an elimination rule.\<close>

lemma composite_loop_cases [consumes 1, case_names exit missing stop advance]:
  assumes run: "composite_loop adv tk a i result s = Some (r, s')"
    and "\<lbrakk>\<not> i < children_count (heap s a); r = result; s' = s\<rbrakk> \<Longrightarrow> P"
    and "\<lbrakk>i < children_count (heap s a); bt_child_at s (Some a) i = None;
          r = BT_ERROR; s' = set_status a BT_ERROR s\<rbrakk> \<Longrightarrow> P"
    and "\<And>c s1. \<lbrakk>i < children_count (heap s a); bt_child_at s (Some a) i = Some c;
          tk (Some c) s = Some (r, s1); r \<noteq> adv;
          s' = set_status a r (set_current_child a i (record_call (ChildTick a (unat i) r) s1))\<rbrakk>
          \<Longrightarrow> P"
    and "\<And>c s1. \<lbrakk>i < children_count (heap s a); bt_child_at s (Some a) i = Some c;
          tk (Some c) s = Some (adv, s1);
          composite_loop adv tk a (i + 1) result
            (set_current_child a (i + 1) (record_call (ChildTick a (unat i) adv) s1))
          = Some (r, s')\<rbrakk> \<Longrightarrow> P"
  shows P
proof (cases "i < children_count (heap s a)")
  case False
  from run False have "r = result" "s' = s"
    by (simp_all add: composite_loop_exit)
  with False show ?thesis by (intro assms(2))
next
  case lt: True
  show ?thesis
  proof (cases "bt_child_at s (Some a) i")
    case None
    from run lt None have "r = BT_ERROR" "s' = set_status a BT_ERROR s"
      by (simp_all add: composite_loop_missing)
    with lt None show ?thesis by (intro assms(3))
  next
    case c: (Some c)
    show ?thesis
    proof (cases "tk (Some c) s")
      case None
      with run lt c show ?thesis by (simp add: composite_loop_fuel)
    next
      case (Some p)
      obtain cs s1 where p: "tk (Some c) s = Some (cs, s1)"
        using Some by (cases p) simp
      show ?thesis
      proof (cases "cs = adv")
        case True
        from run have "composite_loop adv tk a (i + 1) result
            (set_current_child a (i + 1) (record_call (ChildTick a (unat i) adv) s1))
          = Some (r, s')"
          using composite_loop_advance [where tk = tk and result = result, OF lt c] p True
          by simp
        with lt c p True show ?thesis by (intro assms(5) [of c s1]) simp_all
      next
        case False
        have "Some (r, s') = Some (cs,
            set_status a cs (set_current_child a i (record_call (ChildTick a (unat i) cs) s1)))"
          using composite_loop_stop [where tk = tk and result = result, OF lt c p False] run
          by simp
        then have "r = cs"
          "s' = set_status a cs (set_current_child a i (record_call (ChildTick a (unat i) cs) s1))"
          by simp_all
        with lt c p False show ?thesis by (intro assms(4) [of c s1]) simp_all
      qed
    qed
  qed
qed

lemma frame_advance:
  assumes "a \<in> R"
  shows "frame R s (set_current_child a v (record_call (ChildTick a j cs) s))"
proof -
  have "frame R s (record_call (ChildTick a j cs) s)"
    by (rule frame_record_call) (simp add: assms)
  moreover have "frame R (record_call (ChildTick a j cs) s)
      (set_current_child a v (record_call (ChildTick a j cs) s))"
    using assms by (rule frame_set_current_child)
  ultimately show ?thesis by (rule frame_trans)
qed

lemma frame_write_back:
  assumes "a \<in> R"
  shows "frame R s
    (set_status a r (set_current_child a v (record_call (ChildTick a j cs) s)))"
proof -
  have "frame R s (set_current_child a v (record_call (ChildTick a j cs) s))"
    using assms by (rule frame_advance)
  moreover have "frame R (set_current_child a v (record_call (ChildTick a j cs) s))
      (set_status a r (set_current_child a v (record_call (ChildTick a j cs) s)))"
    using assms by (rule frame_set_status)
  ultimately show ?thesis by (rule frame_trans)
qed

lemma composite_loop_frame:
  "tk_frames tk \<Longrightarrow> composite_loop adv tk a i result s = Some (r, s') \<Longrightarrow>
   frame (reach (heap s) a) s s'"
proof (induction adv tk a i result s rule: composite_loop.induct)
  case (1 adv tk a i result s)
  note tk = "1.prems"(1)
  let ?R = "reach (heap s) a"
  have a: "a \<in> ?R" by (rule reach.self)
  from "1.prems"(2) show ?case
  proof (cases rule: composite_loop_cases)
    case exit
    then show ?thesis by (simp add: frame_refl)
  next
    case missing
    then show ?thesis by (simp add: frame_set_status a)
  next
    case (stop c s1)
    have "frame (reach (heap s) c) s s1"
      using tk stop(3) by (rule tk_framesD)
    then have f1: "frame ?R s s1"
      by (rule frame_mono) (rule reach_kid_subset [OF child_at_kids [OF stop(2)]])
    have "frame ?R s1 s'"
      unfolding stop(5) by (rule frame_write_back [OF a])
    with f1 show ?thesis by (rule frame_trans)
  next
    case (advance c s1)
    let ?s2 = "set_current_child a (i + 1) (record_call (ChildTick a (unat i) adv) s1)"
    have "frame (reach (heap s) c) s s1"
      using tk advance(3) by (rule tk_framesD)
    then have f1: "frame ?R s s1"
      by (rule frame_mono) (rule reach_kid_subset [OF child_at_kids [OF advance(2)]])
    have "frame ?R s1 ?s2"
      by (rule frame_advance [OF a])
    with f1 have f2: "frame ?R s ?s2" by (rule frame_trans)
    have "frame (reach (heap ?s2) a) ?s2 s'"
      using advance tk "1.IH" [of c "(adv, s1)" adv s1 "record_call (ChildTick a (unat i) adv) s1"]
      by simp
    then have "frame ?R ?s2 s'"
      using frame_reach [OF f2] by simp
    with f2 show ?thesis by (rule frame_trans)
  qed
qed

subsection \<open>Frames of the handlers\<close>

text \<open>
  \<open>composite_tick\<close> in three steps: entry, loop, and the end of the tick, where the
  exhaustion check and the exit hook are.
\<close>

definition composite_entry :: "addr \<Rightarrow> 'w bt_state \<Rightarrow> 'w bt_state" where
  "composite_entry a s =
     (if status (heap s a) \<noteq> BT_RUNNING
      then bt_call_enter (Some a) (set_current_child a 0 s) else s)"

definition composite_finish ::
  "bt_status_t \<Rightarrow> addr \<Rightarrow> bt_status_t \<Rightarrow> 'w bt_state \<Rightarrow> bt_status_t \<times> 'w bt_state" where
  "composite_finish adv a result s2 =
     (case (if result \<noteq> BT_RUNNING
               \<and> current_child (heap s2 a) \<ge> children_count (heap s2 a)
            then (adv, set_status a adv s2) else (result, s2)) of
        (result, s3) \<Rightarrow>
          (result,
           if result = BT_SUCCESS \<or> result = BT_FAILURE \<or> result = BT_ERROR
           then bt_call_exit (Some a) s3 else s3))"

lemma bt_tick_leaf_frame:
  "bt_tick_leaf (Some a) s = (r, s') \<Longrightarrow> frame (reach (heap s) a) s s'"
proof -
  assume run: "bt_tick_leaf (Some a) s = (r, s')"
  have a: "a \<in> reach (heap s) a" by (rule reach.self)
  show ?thesis
  proof (cases "tick (heap s a)")
    case None
    with run have "s' = set_status a BT_ERROR s"
      by (simp add: bt_tick_leaf_def)
    then show ?thesis by (simp add: frame_set_status a)
  next
    case (Some f)
    obtain res w' where f: "f a (node_view (heap s a)) (world s) = (res, w')"
      by (cases "f a (node_view (heap s a)) (world s)")
    let ?s1 = "s\<lparr>world := w'\<rparr>"
    let ?s2 = "record_call (LeafCall a) ?s1"
    from run Some f have s': "s' = set_status a res ?s2"
      by (auto simp: bt_tick_leaf_def)
    have "frame (reach (heap s) a) s ?s1" by (rule frame_world)
    moreover have "frame (reach (heap s) a) ?s1 ?s2"
      by (rule frame_record_call) (simp add: a)
    moreover have "frame (reach (heap s) a) ?s2 (set_status a res ?s2)"
      by (rule frame_set_status) (rule a)
    ultimately show ?thesis
      unfolding s' by (blast intro: frame_trans)
  qed
qed

lemma exit_if_frame:
  assumes "a \<in> R"
  shows "frame R s (if b then bt_call_exit (Some a) s else s)"
  using assms by (simp add: frame_refl frame_call_exit)

lemma composite_tick_steps:
  "composite_tick adv tk a s =
     (case composite_loop adv tk a (current_child (heap (composite_entry a s) a)) adv
             (composite_entry a s) of
        None \<Rightarrow> None
      | Some (result, s2) \<Rightarrow> Some (composite_finish adv a result s2))"
  by (simp add: composite_tick_def composite_entry_def composite_finish_def Let_def
      split: option.splits prod.splits)

lemma composite_entry_frame:
  assumes "a \<in> R"
  shows "frame R s (composite_entry a s)"
proof (cases "status (heap s a) \<noteq> BT_RUNNING")
  case True
  have "frame R s (set_current_child a 0 s)"
    using assms by (rule frame_set_current_child)
  moreover have "frame R (set_current_child a 0 s) (bt_call_enter (Some a) (set_current_child a 0 s))"
    using assms by (rule frame_call_enter)
  ultimately show ?thesis using True by (auto simp: composite_entry_def intro: frame_trans)
next
  case False
  then show ?thesis by (simp add: composite_entry_def frame_refl)
qed

lemma composite_finish_frame:
  assumes "a \<in> R" and "composite_finish adv a result s = (r, s')"
  shows "frame R s s'"
proof (cases "result \<noteq> BT_RUNNING \<and> current_child (heap s a) \<ge> children_count (heap s a)")
  case True
  let ?s3 = "set_status a adv s"
  from True assms(2) have "s' = (if adv = BT_SUCCESS \<or> adv = BT_FAILURE \<or> adv = BT_ERROR
      then bt_call_exit (Some a) ?s3 else ?s3)"
    by (auto simp: composite_finish_def)
  moreover have "frame R s ?s3" using assms(1) by (rule frame_set_status)
  moreover have "frame R ?s3 (if adv = BT_SUCCESS \<or> adv = BT_FAILURE \<or> adv = BT_ERROR
      then bt_call_exit (Some a) ?s3 else ?s3)"
    using assms(1) by (rule exit_if_frame)
  ultimately show ?thesis by (auto intro: frame_trans)
next
  case False
  with assms(2) have "s' = (if result = BT_SUCCESS \<or> result = BT_FAILURE \<or> result = BT_ERROR
      then bt_call_exit (Some a) s else s)"
    by (auto simp: composite_finish_def)
  then show ?thesis
    by (simp add: frame_refl frame_call_exit assms(1))
qed

lemma composite_tick_frame:
  assumes tk: "tk_frames tk" and run: "composite_tick adv tk a s = Some (r, s')"
  shows "frame (reach (heap s) a) s s'"
proof -
  let ?R = "reach (heap s) a"
  let ?s1 = "composite_entry a s"
  have a: "a \<in> ?R" by (rule reach.self)
  have f1: "frame ?R s ?s1" using a by (rule composite_entry_frame)
  from run obtain result s2 where
    loop: "composite_loop adv tk a (current_child (heap ?s1 a)) adv ?s1 = Some (result, s2)" and
    fin: "composite_finish adv a result s2 = (r, s')"
    by (auto simp: composite_tick_steps split: option.splits)
  have "frame (reach (heap ?s1) a) ?s1 s2"
    using tk loop by (rule composite_loop_frame)
  then have f2: "frame ?R ?s1 s2"
    using frame_reach [OF f1] by simp
  have f3: "frame ?R s2 s'"
    using a fin by (rule composite_finish_frame)
  from f1 f2 f3 show ?thesis by (blast intro: frame_trans)
qed

subsection \<open>The inverter in steps, and the frame of the dispatcher\<close>

definition inverted :: "bt_status_t \<Rightarrow> bt_status_t" where
  "inverted cs =
     (if cs = BT_SUCCESS then BT_FAILURE else if cs = BT_FAILURE then BT_SUCCESS else cs)"

definition inverter_entry :: "addr \<Rightarrow> 'w bt_state \<Rightarrow> 'w bt_state" where
  "inverter_entry a s = (if status (heap s a) \<noteq> BT_RUNNING then bt_call_enter (Some a) s else s)"

definition inverter_finish :: "addr \<Rightarrow> bt_status_t \<Rightarrow> 'w bt_state \<Rightarrow> 'w bt_state" where
  "inverter_finish a cs s2 =
     (let s4 = set_status a (inverted cs) (record_call (ChildTick a 0 cs) s2) in
      if inverted cs = BT_SUCCESS \<or> inverted cs = BT_FAILURE \<or> inverted cs = BT_ERROR
      then bt_call_exit (Some a) s4 else s4)"

lemma bt_tick_inverter_steps:
  "bt_tick_inverter tk (Some a) s =
     (if children_count (heap s a) \<noteq> 1 then Some (BT_ERROR, s)
      else case bt_child_at s (Some a) 0 of
             None \<Rightarrow> Some (BT_ERROR, inverter_entry a s)
           | Some c \<Rightarrow>
               (case tk (Some c) (inverter_entry a s) of
                  None \<Rightarrow> None
                | Some (cs, s2) \<Rightarrow> Some (inverted cs, inverter_finish a cs s2)))"
  by (simp add: bt_tick_inverter_def inverter_entry_def inverter_finish_def inverted_def Let_def
      split: option.splits)

lemma inverter_entry_frame:
  assumes "a \<in> R"
  shows "frame R s (inverter_entry a s)"
  using assms by (simp add: inverter_entry_def frame_refl frame_call_enter)

lemma inverter_finish_frame:
  assumes "a \<in> R"
  shows "frame R s (inverter_finish a cs s)"
proof -
  let ?s3 = "record_call (ChildTick a 0 cs) s"
  let ?s4 = "set_status a (inverted cs) ?s3"
  have "frame R s ?s3" by (rule frame_record_call) (simp add: assms)
  moreover have "frame R ?s3 ?s4" using assms by (rule frame_set_status)
  ultimately have "frame R s ?s4" by (rule frame_trans)
  moreover have "frame R ?s4 (if inverted cs = BT_SUCCESS \<or> inverted cs = BT_FAILURE
      \<or> inverted cs = BT_ERROR then bt_call_exit (Some a) ?s4 else ?s4)"
    using assms by (rule exit_if_frame)
  ultimately show ?thesis
    unfolding inverter_finish_def Let_def by (rule frame_trans)
qed

lemma bt_tick_inverter_frame:
  assumes tk: "tk_frames tk" and run: "bt_tick_inverter tk (Some a) s = Some (r, s')"
  shows "frame (reach (heap s) a) s s'"
proof (cases "children_count (heap s a) \<noteq> 1")
  case True
  with run show ?thesis by (simp add: bt_tick_inverter_steps frame_refl)
next
  case one: False
  let ?R = "reach (heap s) a"
  let ?s1 = "inverter_entry a s"
  have a: "a \<in> ?R" by (rule reach.self)
  have f1: "frame ?R s ?s1" using a by (rule inverter_entry_frame)
  show ?thesis
  proof (cases "bt_child_at s (Some a) 0")
    case None
    with run one f1 show ?thesis by (simp add: bt_tick_inverter_steps)
  next
    case (Some c)
    with run one obtain cs s2 where
      child: "tk (Some c) ?s1 = Some (cs, s2)" and s': "s' = inverter_finish a cs s2"
      by (auto simp: bt_tick_inverter_steps split: option.splits)
    have "frame (reach (heap ?s1) c) ?s1 s2"
      using tk child by (rule tk_framesD)
    then have "frame (reach (heap s) c) ?s1 s2"
      using frame_reach [OF f1] by simp
    then have f2: "frame ?R ?s1 s2"
      by (rule frame_mono) (rule reach_kid_subset [OF child_at_kids [OF Some]])
    have f3: "frame ?R s2 s'"
      unfolding s' using a by (rule inverter_finish_frame)
    from f1 f2 f3 show ?thesis by (blast intro: frame_trans)
  qed
qed

lemma bt_tick_internal_frame:
  fixes s :: "'w bt_state"
  shows "bt_tick_internal n (Some a) s = Some (r, s') \<Longrightarrow> frame (reach (heap s) a) s s'"
proof (induction n arbitrary: a s r s')
  case 0
  then show ?case by simp
next
  case (Suc n)
  have tk: "tk_frames (bt_tick_internal n :: addr option \<Rightarrow> 'w bt_state \<Rightarrow> _)"
    unfolding tk_frames_def using Suc.IH by simp
  have a: "a \<in> reach (heap s) a" by (rule reach.self)
  show ?case
  proof (cases "type (heap s a)")
    case BT_ACTION
    with Suc.prems show ?thesis by (auto intro: bt_tick_leaf_frame)
  next
    case BT_CONDITION
    with Suc.prems show ?thesis by (auto intro: bt_tick_leaf_frame)
  next
    case BT_SEQUENCE
    with Suc.prems show ?thesis
      by (auto simp: bt_tick_sequence_composite intro: composite_tick_frame [OF tk])
  next
    case BT_SELECTOR
    with Suc.prems show ?thesis
      by (auto simp: bt_tick_selector_composite intro: composite_tick_frame [OF tk])
  next
    case BT_INVERTER
    with Suc.prems show ?thesis
      by (auto intro: bt_tick_inverter_frame [OF tk])
  next
    case BT_TYPE_OTHER
    with Suc.prems show ?thesis by (auto simp: frame_set_status a)
  qed
qed

lemma bt_tick_internal_frames: "tk_frames (bt_tick_internal n)"
  unfolding tk_frames_def by (intro allI impI) (erule bt_tick_internal_frame)

subsection \<open>A concrete tree\<close>

text \<open>
  The tree of the repository's performance test, with hooks on the root: a sequence at
  address 0 over a condition that always succeeds (address 1) and an action that runs for
  two ticks and then succeeds (address 2). The user state is the progress counter of the
  action. \<open>set_hooks\<close> is the caller writing \<^verbatim>\<open>on_enter\<close> and \<^verbatim>\<open>on_exit\<close> after
  \<^verbatim>\<open>bt_init\<close>.
\<close>

definition blank_node :: "nat bt_node_t" where
  "blank_node =
     \<lparr>type = BT_ACTION, status = BT_SUCCESS, tick = None, children = None,
      children_count = 0, current_child = 0, on_enter = None, on_exit = None,
      time_anchor_ms = 0, user_data = None, blackboard = None\<rparr>"

definition blank :: "nat bt_state" where
  "blank = \<lparr>heap = (\<lambda>a. blank_node), world = 0, calls = []\<rparr>"

definition leaf_cond_true :: "addr \<Rightarrow> bt_node_view \<Rightarrow> nat \<Rightarrow> bt_status_t \<times> nat" where
  "leaf_cond_true a v w = (BT_SUCCESS, w)"

definition leaf_action_progress ::
  "nat \<Rightarrow> addr \<Rightarrow> bt_node_view \<Rightarrow> nat \<Rightarrow> bt_status_t \<times> nat" where
  "leaf_action_progress need a v w =
     (if w < need then (BT_RUNNING, w + 1) else (BT_SUCCESS, w))"

text \<open>
  The hooks of the concrete trees. \<open>hook_on_enter\<close> leaves the user state as it is;
  \<open>hook_on_exit\<close> reads the status of its node and adds 100 to the counter when that is
  Success.
\<close>

definition hook_on_enter :: "addr \<Rightarrow> bt_node_view \<Rightarrow> nat \<Rightarrow> nat" where
  "hook_on_enter a v w = w"

definition hook_on_exit :: "addr \<Rightarrow> bt_node_view \<Rightarrow> nat \<Rightarrow> nat" where
  "hook_on_exit a v w = (if seen_status v = BT_SUCCESS then w + 100 else w)"

definition set_hooks ::
  "addr \<Rightarrow> (addr \<Rightarrow> bt_node_view \<Rightarrow> 'w \<Rightarrow> 'w) option \<Rightarrow>
   (addr \<Rightarrow> bt_node_view \<Rightarrow> 'w \<Rightarrow> 'w) option \<Rightarrow> 'w bt_state \<Rightarrow> 'w bt_state" where
  "set_hooks a en ex s = s\<lparr>heap := (heap s)(a := (heap s a)\<lparr>on_enter := en, on_exit := ex\<rparr>)\<rparr>"

definition seq_children :: "nat \<Rightarrow> addr option" where
  "seq_children i = (if i = 0 then Some 1 else if i = 1 then Some 2 else None)"

definition demo :: "nat bt_state" where
  "demo =
     set_hooks 0 (Some hook_on_enter) (Some hook_on_exit)
       (bt_init (Some 0) BT_SEQUENCE None (Some seq_children) 2 None
         (bt_init (Some 2) BT_ACTION (Some (leaf_action_progress 2)) None 0 None
           (bt_init (Some 1) BT_CONDITION (Some leaf_cond_true) None 0 None blank)))"

definition leaf_cond_false :: "addr \<Rightarrow> bt_node_view \<Rightarrow> nat \<Rightarrow> bt_status_t \<times> nat" where
  "leaf_cond_false a v w = (BT_FAILURE, w)"

text \<open>
  The tree of the selector test: a selector at address 0 over a condition that always
  fails (address 1) and one that always succeeds (address 2).
\<close>

definition sel_demo :: "nat bt_state" where
  "sel_demo =
     bt_init (Some 0) BT_SELECTOR None (Some seq_children) 2 None
       (bt_init (Some 2) BT_CONDITION (Some leaf_cond_true) None 0 None
         (bt_init (Some 1) BT_CONDITION (Some leaf_cond_false) None 0 None blank))"

text \<open>
  A selector at address 0 whose first child (address 1) is an action without a callback,
  so that its tick is an Error, and whose second child (address 2) always succeeds.
\<close>

definition err_demo :: "nat bt_state" where
  "err_demo =
     bt_init (Some 0) BT_SELECTOR None (Some seq_children) 2 None
       (bt_init (Some 2) BT_CONDITION (Some leaf_cond_true) None 0 None
         (bt_init (Some 1) BT_ACTION None None 0 None blank))"

text \<open>
  The tree of the inverter test: an inverter at address 0 over a condition that always
  succeeds (address 1); and the inverter of the error test, which has no child.
\<close>

definition inv_children :: "nat \<Rightarrow> addr option" where
  "inv_children i = (if i = 0 then Some 1 else None)"

definition inv_demo :: "nat bt_state" where
  "inv_demo =
     bt_init (Some 0) BT_INVERTER None (Some inv_children) 1 None
       (bt_init (Some 1) BT_CONDITION (Some leaf_cond_true) None 0 None blank)"

definition inv_bad :: "nat bt_state" where
  "inv_bad =
     set_hooks 0 (Some hook_on_enter) (Some hook_on_exit)
       (bt_init (Some 0) BT_INVERTER None None 0 None blank)"

lemma word16_two_le_one: "\<not> (2 :: 16 word) \<le> 1"
  by (simp add: word_le_nat_alt)

lemmas eval_defs =
  word16_two_le_one eval_nat_numeral demo_def sel_demo_def err_demo_def inv_demo_def inv_bad_def
  inv_children_def bt_tick_inverter_steps inverter_entry_def inverter_finish_def inverted_def
  set_hooks_def bt_init_def blank_def
  seq_children_def blank_node_def bt_tick_def bt_tick_sequence_composite
  bt_tick_selector_composite composite_tick_steps
  composite_entry_def composite_finish_def composite_loop.simps bt_call_enter_def
  bt_call_exit_def bt_child_at_def set_status_def set_current_child_def record_call_def
  bt_tick_leaf_def leaf_cond_true_def leaf_cond_false_def leaf_action_progress_def
  hook_on_enter_def hook_on_exit_def node_view_def

subsection \<open>The calls of one node, and what a parent sees of a child's tick\<close>

text \<open>
  \<open>own_calls a evs\<close> are the calls of \<open>evs\<close> made by the handler of node \<open>a\<close>,
  \<open>above_kids h a\<close> says that \<open>a\<close> is not a descendant of any of its children, and
  \<open>child_slot h a k\<close> is the child reference at index \<open>k\<close>, as \<open>bt_child_at\<close> reads it.
\<close>

definition own_calls :: "addr \<Rightarrow> event list \<Rightarrow> event list" where
  "own_calls a evs = filter (\<lambda>e. ev_node e = a) evs"

definition above_kids :: "(addr \<Rightarrow> 'w bt_node_t) \<Rightarrow> addr \<Rightarrow> bool" where
  "above_kids h a = (\<forall>c \<in> set (kids h a). a \<notin> reach h c)"

definition child_slot :: "(addr \<Rightarrow> 'w bt_node_t) \<Rightarrow> addr \<Rightarrow> nat \<Rightarrow> addr option" where
  "child_slot h a k =
     (case children (h a) of
        None \<Rightarrow> None
      | Some arr \<Rightarrow> if k < unat (children_count (h a)) then arr k else None)"

lemma heap_set_status [simp]:
  "heap (set_status a v s) = (heap s)(a := (heap s a)\<lparr>status := v\<rparr>)"
  by (simp add: set_status_def)

lemma calls_set_status [simp]: "calls (set_status a v s) = calls s"
  by (simp add: set_status_def)

lemma world_set_status [simp]: "world (set_status a v s) = world s"
  by (simp add: set_status_def)

lemma heap_set_current_child [simp]:
  "heap (set_current_child a v s) = (heap s)(a := (heap s a)\<lparr>current_child := v\<rparr>)"
  by (simp add: set_current_child_def)

lemma calls_set_current_child [simp]: "calls (set_current_child a v s) = calls s"
  by (simp add: set_current_child_def)

lemma world_set_current_child [simp]: "world (set_current_child a v s) = world s"
  by (simp add: set_current_child_def)

lemma heap_record_call [simp]: "heap (record_call e s) = heap s"
  by (simp add: record_call_def)

lemma calls_record_call [simp]: "calls (record_call e s) = calls s @ [e]"
  by (simp add: record_call_def)

lemma world_record_call [simp]: "world (record_call e s) = world s"
  by (simp add: record_call_def)

lemma own_calls_append [simp]: "own_calls a (xs @ ys) = own_calls a xs @ own_calls a ys"
  by (simp add: own_calls_def)

lemma own_calls_Nil [simp]: "own_calls a [] = []"
  by (simp add: own_calls_def)

lemma own_calls_Cons [simp]:
  "own_calls a (e # es) = (if ev_node e = a then e # own_calls a es else own_calls a es)"
  by (simp add: own_calls_def)

lemma own_calls_outside:
  assumes "ev_node ` set evs \<subseteq> R" and "a \<notin> R"
  shows "own_calls a evs = []"
  using assms by (auto simp: own_calls_def filter_empty_conv)

lemma bt_child_at_slot: "bt_child_at s (Some a) i = child_slot (heap s) a (unat i)"
  by (simp add: bt_child_at_def child_slot_def word_less_nat_alt split: option.splits)

lemma child_slot_cong:
  assumes "only_bookkeeping (h a) (h' a)"
  shows "child_slot h' a k = child_slot h a k"
  using only_bookkeeping_fields(3,4) [OF assms]
  by (simp add: child_slot_def cong: option.case_cong)

lemma above_kids_frame:
  assumes "frame R s s'"
  shows "above_kids (heap s') a = above_kids (heap s) a"
  by (simp add: above_kids_def frame_kids [OF assms] frame_reach [OF assms])

text \<open>
  What a parent sees of the tick of one of its children, when it is not among that child's
  descendants: its own fields are as before and none of the new calls is its own.
\<close>

lemma child_tick_invisible:
  assumes tk: "tk_frames tk" and ak: "above_kids (heap s) a"
    and slot: "bt_child_at s (Some a) i = Some c"
    and run: "tk (Some c) s = Some (cs, s1)"
  obtains e1 where "heap s1 a = heap s a" and "calls s1 = calls s @ e1"
    and "own_calls a e1 = []" and "frame (reach (heap s) a) s s1"
proof -
  have kid: "c \<in> set (kids (heap s) a)" using slot by (rule child_at_kids)
  then have out: "a \<notin> reach (heap s) c" using ak by (simp add: above_kids_def)
  have f: "frame (reach (heap s) c) s s1" using tk run by (rule tk_framesD)
  from frame_calls [OF f] obtain e1 where
    e1: "calls s1 = calls s @ e1" "ev_node ` set e1 \<subseteq> reach (heap s) c" by blast
  have "heap s1 a = heap s a" using f out by (rule frame_heap_outside)
  moreover have "own_calls a e1 = []" using e1(2) out by (rule own_calls_outside)
  moreover have "frame (reach (heap s) a) s s1"
    using f by (rule frame_mono) (rule reach_kid_subset [OF kid])
  ultimately show thesis using e1(1) that by blast
qed

subsection \<open>The calls made by the loop of a composite\<close>

text \<open>
  \<open>passed adv a i k\<close> are the returns of the children at the indices from \<open>i\<close> up to but
  not including \<open>k\<close>, each with the advancing status. The loop started at \<open>i\<close> ends in one
  of three ways: it runs off the end of the children, it finds an empty child slot, or a
  child returns a status other than the advancing one.
\<close>

definition passed :: "bt_status_t \<Rightarrow> addr \<Rightarrow> nat \<Rightarrow> nat \<Rightarrow> event list" where
  "passed adv a i k = map (\<lambda>j. ChildTick a j adv) [i..<k]"

lemma passed_empty [simp]: "k \<le> i \<Longrightarrow> passed adv a i k = []"
  by (simp add: passed_def)

lemma passed_step: "i < k \<Longrightarrow> ChildTick a i adv # passed adv a (Suc i) k = passed adv a i k"
  by (simp add: passed_def upt_conv_Cons)

lemma composite_loop_trace:
  "tk_frames tk \<Longrightarrow> above_kids (heap s) a \<Longrightarrow> current_child (heap s a) = i \<Longrightarrow>
   composite_loop adv tk a i result s = Some (r, s') \<Longrightarrow>
   \<exists>evs k. calls s' = calls s @ evs \<and> unat i \<le> k
     \<and> unat (current_child (heap s' a)) = k
     \<and> frame (reach (heap s) a) s s'
     \<and> ((r = result \<and> status (heap s' a) = status (heap s a)
            \<and> own_calls a evs = passed adv a (unat i) k
            \<and> k = max (unat i) (unat (children_count (heap s a))))
        \<or> (r = BT_ERROR \<and> status (heap s' a) = BT_ERROR
            \<and> own_calls a evs = passed adv a (unat i) k
            \<and> k < unat (children_count (heap s a)) \<and> child_slot (heap s) a k = None)
        \<or> (r \<noteq> adv \<and> status (heap s' a) = r
            \<and> own_calls a evs = passed adv a (unat i) k @ [ChildTick a k r]
            \<and> k < unat (children_count (heap s a)) \<and> child_slot (heap s) a k \<noteq> None))"
proof (induction adv tk a i result s rule: composite_loop.induct)
  case (1 adv tk a i result s)
  note tk = "1.prems"(1) and ak = "1.prems"(2) and cur = "1.prems"(3)
  let ?cnt = "unat (children_count (heap s a))"
  let ?R = "reach (heap s) a"
  have a: "a \<in> ?R" by (rule reach.self)
  from "1.prems"(4) show ?case
  proof (cases rule: composite_loop_cases)
    case exit
    then have "?cnt \<le> unat i" by (simp add: word_less_nat_alt)
    then have "max (unat i) ?cnt = unat i" by simp
    with exit cur show ?thesis
      by (intro exI [of _ "[]"] exI [of _ "unat i"]) (simp add: frame_refl)
  next
    case missing
    then have "unat i < ?cnt" by (simp add: word_less_nat_alt)
    moreover have "child_slot (heap s) a (unat i) = None"
      using missing(2) by (simp add: bt_child_at_slot)
    ultimately show ?thesis
      using missing cur
      by (intro exI [of _ "[]"] exI [of _ "unat i"]) (simp add: frame_set_status a)
  next
    case (stop c s1)
    from tk ak stop(2,3) obtain e1 where
      h1: "heap s1 a = heap s a" and c1: "calls s1 = calls s @ e1" and
      o1: "own_calls a e1 = []" and f1: "frame ?R s s1"
      by (rule child_tick_invisible)
    have lt: "unat i < ?cnt" using stop(1) by (simp add: word_less_nat_alt)
    have slot: "child_slot (heap s) a (unat i) \<noteq> None"
      using stop(2) by (simp add: bt_child_at_slot)
    have "frame ?R s1 s'"
      unfolding stop(5) by (rule frame_write_back [OF a])
    with f1 have f: "frame ?R s s'" by (rule frame_trans)
    have "calls s' = calls s @ (e1 @ [ChildTick a (unat i) r])"
      by (simp add: stop(5) c1)
    moreover have "own_calls a (e1 @ [ChildTick a (unat i) r])
        = passed adv a (unat i) (unat i) @ [ChildTick a (unat i) r]"
      by (simp add: o1)
    moreover have "unat (current_child (heap s' a)) = unat i" "status (heap s' a) = r"
      by (simp_all add: stop(5))
    ultimately show ?thesis
      using lt slot stop(4) f
      by (intro exI [of _ "e1 @ [ChildTick a (unat i) r]"] exI [of _ "unat i"]) simp
  next
    case (advance c s1)
    let ?s2 = "set_current_child a (i + 1) (record_call (ChildTick a (unat i) adv) s1)"
    from tk ak advance(2,3) obtain e1 where
      h1: "heap s1 a = heap s a" and c1: "calls s1 = calls s @ e1" and
      o1: "own_calls a e1 = []" and f1: "frame ?R s s1"
      by (rule child_tick_invisible)
    have lt: "unat i < ?cnt" using advance(1) by (simp add: word_less_nat_alt)
    have suc: "unat (i + 1) = Suc (unat i)" using advance(1) by (rule word16_succ)
    have "frame ?R s1 ?s2" by (rule frame_advance [OF a])
    with f1 have f2: "frame ?R s ?s2" by (rule frame_trans)
    have ak2: "above_kids (heap ?s2) a"
      using ak above_kids_frame [OF f2] by simp
    have cur2: "current_child (heap ?s2 a) = i + 1" by simp
    have h2: "status (heap ?s2 a) = status (heap s a)"
      "children_count (heap ?s2 a) = children_count (heap s a)"
      by (simp_all add: h1)
    have slot2: "child_slot (heap ?s2) a k = child_slot (heap s) a k" for k
      by (rule child_slot_cong) (rule frame_bookkeeping [OF f2])
    have R2: "reach (heap ?s2) a = ?R" using f2 by (rule frame_reach)
    from "1.IH" [OF advance(1,2,3) refl refl _ tk ak2 cur2 advance(4)]
    obtain evs2 k where
      c2: "calls s' = calls ?s2 @ evs2" and le: "Suc (unat i) \<le> k" and
      k: "unat (current_child (heap s' a)) = k" and f3: "frame ?R ?s2 s'" and
      alt: "(r = result \<and> status (heap s' a) = status (heap s a)
            \<and> own_calls a evs2 = passed adv a (Suc (unat i)) k
            \<and> k = max (Suc (unat i)) ?cnt)
        \<or> (r = BT_ERROR \<and> status (heap s' a) = BT_ERROR
            \<and> own_calls a evs2 = passed adv a (Suc (unat i)) k
            \<and> k < ?cnt \<and> child_slot (heap s) a k = None)
        \<or> (r \<noteq> adv \<and> status (heap s' a) = r
            \<and> own_calls a evs2 = passed adv a (Suc (unat i)) k @ [ChildTick a k r]
            \<and> k < ?cnt \<and> child_slot (heap s) a k \<noteq> None)"
      unfolding suc h2 slot2 R2 by auto
    let ?evs = "e1 @ ChildTick a (unat i) adv # evs2"
    have calls: "calls s' = calls s @ ?evs" by (simp add: c2 c1)
    have own: "own_calls a ?evs = ChildTick a (unat i) adv # own_calls a evs2"
      by (simp add: o1)
    have step: "ChildTick a (unat i) adv # passed adv a (Suc (unat i)) k = passed adv a (unat i) k"
      using le by (intro passed_step) simp
    have mx: "max (Suc (unat i)) ?cnt = max (unat i) ?cnt" using lt by simp
    have f: "frame ?R s s'" using f2 f3 by (rule frame_trans)
    have "unat i \<le> k" using le by simp
    moreover from alt have "(r = result \<and> status (heap s' a) = status (heap s a)
            \<and> own_calls a ?evs = passed adv a (unat i) k
            \<and> k = max (unat i) ?cnt)
        \<or> (r = BT_ERROR \<and> status (heap s' a) = BT_ERROR
            \<and> own_calls a ?evs = passed adv a (unat i) k
            \<and> k < ?cnt \<and> child_slot (heap s) a k = None)
        \<or> (r \<noteq> adv \<and> status (heap s' a) = r
            \<and> own_calls a ?evs = passed adv a (unat i) k @ [ChildTick a k r]
            \<and> k < ?cnt \<and> child_slot (heap s) a k \<noteq> None)"
      unfolding own mx [symmetric] step [symmetric] by auto
    ultimately show ?thesis
      using calls k f by (intro exI [of _ ?evs] exI [of _ k]) simp
  qed
qed

subsection \<open>One tick of a composite, as the calls it makes and the state it leaves\<close>

text \<open>
  \<open>entry_index\<close> is the index at which the loop starts: 0 on a fresh entry, the stored
  cursor on a resumption. \<open>enter_call\<close> and \<open>exit_call\<close> are the hook calls of a tick.
  \<open>composite_outcome\<close> lists the three ways in which the tick of a composite ends, with
  the final cursor \<open>k\<close>, the result \<open>r\<close> and the last return of a child, if the loop
  stopped on one.
\<close>

definition entry_index :: "(addr \<Rightarrow> 'w bt_node_t) \<Rightarrow> addr \<Rightarrow> nat" where
  "entry_index h a = (if status (h a) \<noteq> BT_RUNNING then 0 else unat (current_child (h a)))"

definition enter_call :: "(addr \<Rightarrow> 'w bt_node_t) \<Rightarrow> addr \<Rightarrow> event list" where
  "enter_call h a =
     (if status (h a) \<noteq> BT_RUNNING \<and> on_enter (h a) \<noteq> None then [Enter a] else [])"

definition exit_call :: "(addr \<Rightarrow> 'w bt_node_t) \<Rightarrow> addr \<Rightarrow> bt_status_t \<Rightarrow> event list" where
  "exit_call h a r = (if r \<noteq> BT_RUNNING \<and> on_exit (h a) \<noteq> None then [Exit a] else [])"

definition composite_outcome ::
  "bt_status_t \<Rightarrow> (addr \<Rightarrow> 'w bt_node_t) \<Rightarrow> addr \<Rightarrow> nat \<Rightarrow> bt_status_t \<Rightarrow> event list \<Rightarrow> bool" where
  "composite_outcome adv h a k r tail =
     ((r = adv \<and> tail = []
         \<and> k = max (entry_index h a) (unat (children_count (h a))))
    \<or> (r = BT_ERROR \<and> tail = []
         \<and> k < unat (children_count (h a)) \<and> child_slot h a k = None)
    \<or> (r \<noteq> adv \<and> tail = [ChildTick a k r]
         \<and> k < unat (children_count (h a)) \<and> child_slot h a k \<noteq> None))"

lemma calls_call_enter:
  "calls (bt_call_enter (Some a) s) =
     calls s @ (if on_enter (heap s a) \<noteq> None then [Enter a] else [])"
  by (simp add: bt_call_enter_def split: option.splits)

lemma heap_call_enter [simp]: "heap (bt_call_enter (Some a) s) = heap s"
  by (simp add: bt_call_enter_def split: option.splits)

lemma calls_call_exit:
  "calls (bt_call_exit (Some a) s) =
     calls s @ (if on_exit (heap s a) \<noteq> None then [Exit a] else [])"
  by (simp add: bt_call_exit_def split: option.splits)

lemma heap_call_exit [simp]: "heap (bt_call_exit (Some a) s) = heap s"
  by (simp add: bt_call_exit_def split: option.splits)

lemma composite_entry_facts:
  "calls (composite_entry a s) = calls s @ enter_call (heap s) a"
  "unat (current_child (heap (composite_entry a s) a)) = entry_index (heap s) a"
  "status (heap (composite_entry a s) a) = status (heap s a)"
  by (simp_all add: composite_entry_def enter_call_def entry_index_def calls_call_enter)

lemma composite_finish_facts:
  assumes adv: "adv = BT_SUCCESS \<or> adv = BT_FAILURE"
    and fin: "composite_finish adv a result s2 = (r, s')"
    and st: "result \<noteq> adv \<longrightarrow> status (heap s2 a) = result"
    and ex: "result = adv \<longleftrightarrow> children_count (heap s2 a) \<le> current_child (heap s2 a)"
  shows "r = result" "status (heap s' a) = r"
    "current_child (heap s' a) = current_child (heap s2 a)"
    "calls s' = calls s2 @ (if r \<noteq> BT_RUNNING \<and> on_exit (heap s2 a) \<noteq> None then [Exit a] else [])"
proof -
  show r: "r = result"
    using adv fin ex by (auto simp: composite_finish_def split: if_splits)
  show "status (heap s' a) = r"
    using adv fin st ex by (auto simp: composite_finish_def split: if_splits)
  show "current_child (heap s' a) = current_child (heap s2 a)"
    using fin by (auto simp: composite_finish_def split: if_splits)
  show "calls s' = calls s2 @ (if r \<noteq> BT_RUNNING \<and> on_exit (heap s2 a) \<noteq> None then [Exit a] else [])"
    using adv fin ex by (cases result) (auto simp: composite_finish_def calls_call_exit split: if_splits)
qed


lemma composite_tick_trace:
  assumes tk: "tk_frames tk" and ak: "above_kids (heap s) a"
    and adv: "adv = BT_SUCCESS \<or> adv = BT_FAILURE"
    and run: "composite_tick adv tk a s = Some (r, s')"
  shows "\<exists>evs k tail. calls s' = calls s @ evs
     \<and> status (heap s' a) = r
     \<and> unat (current_child (heap s' a)) = k
     \<and> entry_index (heap s) a \<le> k
     \<and> own_calls a evs =
         enter_call (heap s) a @ passed adv a (entry_index (heap s) a) k @ tail
           @ exit_call (heap s) a r
     \<and> composite_outcome adv (heap s) a k r tail"
proof -
  let ?R = "reach (heap s) a"
  let ?s1 = "composite_entry a s"
  let ?i = "current_child (heap ?s1 a)"
  let ?cnt = "unat (children_count (heap s a))"
  let ?st = "entry_index (heap s) a"
  have a: "a \<in> ?R" by (rule reach.self)
  have f1: "frame ?R s ?s1" using a by (rule composite_entry_frame)
  note b1 = only_bookkeeping_fields [OF frame_bookkeeping [OF f1, of a]]
  from run obtain result s2 where
    loop: "composite_loop adv tk a ?i adv ?s1 = Some (result, s2)" and
    fin: "composite_finish adv a result s2 = (r, s')"
    by (auto simp: composite_tick_steps split: option.splits)
  have ak1: "above_kids (heap ?s1) a"
    using ak above_kids_frame [OF f1] by simp
  have i: "unat ?i = ?st" by (rule composite_entry_facts)
  have slot1: "child_slot (heap ?s1) a k = child_slot (heap s) a k" for k
    by (rule child_slot_cong) (rule frame_bookkeeping [OF f1])
  from composite_loop_trace [OF tk ak1 refl loop]
  obtain evs k where
    c2: "calls s2 = calls ?s1 @ evs" and le: "?st \<le> k" and
    k: "unat (current_child (heap s2 a)) = k" and f2: "frame (reach (heap ?s1) a) ?s1 s2" and
    alt: "(result = adv \<and> status (heap s2 a) = status (heap s a)
            \<and> own_calls a evs = passed adv a ?st k \<and> k = max ?st ?cnt)
        \<or> (result = BT_ERROR \<and> status (heap s2 a) = BT_ERROR
            \<and> own_calls a evs = passed adv a ?st k
            \<and> k < ?cnt \<and> child_slot (heap s) a k = None)
        \<or> (result \<noteq> adv \<and> status (heap s2 a) = result
            \<and> own_calls a evs = passed adv a ?st k @ [ChildTick a k result]
            \<and> k < ?cnt \<and> child_slot (heap s) a k \<noteq> None)"
    unfolding i slot1 b1 composite_entry_facts(3) by blast
  have f12: "frame ?R s s2"
    using f1 f2 frame_reach [OF f1] by (auto intro: frame_trans)
  note b2 = only_bookkeeping_fields [OF frame_bookkeeping [OF f12, of a]]
  have cnt2: "unat (children_count (heap s2 a)) = ?cnt" by (simp add: b2)
  have st: "result \<noteq> adv \<longrightarrow> status (heap s2 a) = result"
    using alt adv by auto
  have "result = adv \<longleftrightarrow> ?cnt \<le> k"
    using alt adv by auto
  then have ex: "result = adv \<longleftrightarrow> children_count (heap s2 a) \<le> current_child (heap s2 a)"
    by (simp add: word_le_nat_alt k cnt2)
  note fins = composite_finish_facts [OF adv fin st ex]
  define tail where "tail = (if result = adv \<or> child_slot (heap s) a k = None then []
    else [ChildTick a k result])"
  let ?evs = "enter_call (heap s) a @ evs @ exit_call (heap s) a r"
  have "calls s' = calls s @ ?evs"
    by (simp add: fins(4) c2 composite_entry_facts(1) exit_call_def b2)
  moreover have "status (heap s' a) = r" by (rule fins(2))
  moreover have "unat (current_child (heap s' a)) = k" by (simp add: fins(3) k)
  moreover have "own_calls a evs = passed adv a ?st k @ tail"
    using alt adv by (auto simp: tail_def)
  then have "own_calls a ?evs =
      enter_call (heap s) a @ passed adv a ?st k @ tail @ exit_call (heap s) a r"
    by (simp add: enter_call_def exit_call_def)
  moreover have "composite_outcome adv (heap s) a k r tail"
    using alt adv unfolding composite_outcome_def tail_def fins(1) by auto
  ultimately show ?thesis using le by blast
qed

subsection \<open>A tick returns when the tree is nested no deeper than the bound\<close>

text \<open>
  \<open>tk_returns tk h a\<close>: the child tick \<open>tk\<close> returns on every child of \<open>a\<close>, in every
  state whose nodes have the children they have in \<open>h\<close>.
\<close>

definition tk_returns ::
  "(addr option \<Rightarrow> 'w bt_state \<Rightarrow> (bt_status_t \<times> 'w bt_state) option) \<Rightarrow>
   (addr \<Rightarrow> 'w bt_node_t) \<Rightarrow> addr \<Rightarrow> bool" where
  "tk_returns tk h a =
     (\<forall>c \<in> set (kids h a). \<forall>st. (\<forall>x. kids (heap st) x = kids h x) \<longrightarrow>
        (\<exists>r st'. tk (Some c) st = Some (r, st')))"

lemma tk_returnsD:
  assumes "tk_returns tk h a" and "c \<in> set (kids h a)" and "\<And>x. kids (heap st) x = kids h x"
  obtains r st' where "tk (Some c) st = Some (r, st')"
  using assms unfolding tk_returns_def by blast

lemma tk_returns_cong:
  assumes "\<And>x. kids h' x = kids h x"
  shows "tk_returns tk h' a = tk_returns tk h a"
  by (simp add: tk_returns_def assms)

lemma composite_loop_returns:
  "tk_frames tk \<Longrightarrow> tk_returns tk (heap s) a \<Longrightarrow>
   \<exists>r s'. composite_loop adv tk a i result s = Some (r, s')"
proof (induction adv tk a i result s rule: composite_loop.induct)
  case (1 adv tk a i result s)
  note tk = "1.prems"(1) and ret = "1.prems"(2)
  show ?case
  proof (cases "i < children_count (heap s a)")
    case False
    then show ?thesis by (simp add: composite_loop_exit)
  next
    case lt: True
    show ?thesis
    proof (cases "bt_child_at s (Some a) i")
      case None
      with lt show ?thesis by (simp add: composite_loop_missing)
    next
      case (Some c)
      have kid: "c \<in> set (kids (heap s) a)" using Some by (rule child_at_kids)
      from ret kid obtain cs s1 where child: "tk (Some c) s = Some (cs, s1)"
        by (rule tk_returnsD) simp
      show ?thesis
      proof (cases "cs = adv")
        case False
        then show ?thesis
          using composite_loop_stop [where tk = tk and result = result, OF lt Some child]
          by simp
      next
        case True
        let ?s2 = "set_current_child a (i + 1) (record_call (ChildTick a (unat i) adv) s1)"
        have f1: "frame (reach (heap s) a) s s1"
          using tk_framesD [OF tk child] reach_kid_subset [OF kid] by (rule frame_mono)
        have "frame (reach (heap s) a) s1 ?s2"
          by (rule frame_advance) (rule reach.self)
        with f1 have f2: "frame (reach (heap s) a) s ?s2" by (rule frame_trans)
        have "tk_returns tk (heap ?s2) a"
          using ret tk_returns_cong [of "heap ?s2" "heap s" tk a] frame_kids [OF f2] by simp
        from "1.IH" [OF lt Some child [unfolded True] refl refl _ tk this]
        obtain r s' where "composite_loop adv tk a (i + 1) result ?s2 = Some (r, s')"
          by auto
        then show ?thesis
          using composite_loop_advance [where tk = tk and result = result, OF lt Some]
            child True by simp
      qed
    qed
  qed
qed

lemma composite_tick_returns:
  assumes "tk_frames tk" and "tk_returns tk (heap s) a"
  shows "\<exists>r s'. composite_tick adv tk a s = Some (r, s')"
proof -
  let ?s1 = "composite_entry a s"
  have f1: "frame (reach (heap s) a) s ?s1"
    by (rule composite_entry_frame) (rule reach.self)
  have "tk_returns tk (heap ?s1) a"
    using assms(2) tk_returns_cong [of "heap ?s1" "heap s" tk a] frame_kids [OF f1] by simp
  from composite_loop_returns [OF assms(1) this]
  obtain result s2 where
    "composite_loop adv tk a (current_child (heap ?s1 a)) adv ?s1 = Some (result, s2)"
    by blast
  then show ?thesis
    by (cases "composite_finish adv a result s2") (simp add: composite_tick_steps)
qed

lemma bt_tick_inverter_returns:
  assumes "tk_frames tk" and "tk_returns tk (heap s) a"
  shows "\<exists>r s'. bt_tick_inverter tk (Some a) s = Some (r, s')"
proof (cases "bt_child_at s (Some a) 0")
  case None
  then show ?thesis by (simp add: bt_tick_inverter_steps)
next
  case (Some c)
  let ?s1 = "inverter_entry a s"
  have kid: "c \<in> set (kids (heap s) a)" using Some by (rule child_at_kids)
  have f1: "frame (reach (heap s) a) s ?s1"
    by (rule inverter_entry_frame) (rule reach.self)
  from assms(2) kid obtain cs s2 where "tk (Some c) ?s1 = Some (cs, s2)"
    by (rule tk_returnsD) (rule frame_kids [OF f1])
  with Some show ?thesis by (simp add: bt_tick_inverter_steps)
qed

lemma bt_tick_internal_returns:
  fixes s :: "'w bt_state"
  shows "nested_within n (heap s) a \<Longrightarrow> \<exists>r s'. bt_tick_internal n (Some a) s = Some (r, s')"
proof (induction n arbitrary: a s)
  case 0
  then show ?case by simp
next
  case (Suc n)
  let ?tk = "bt_tick_internal n :: addr option \<Rightarrow> 'w bt_state \<Rightarrow> _"
  have tk: "tk_frames ?tk" by (rule bt_tick_internal_frames)
  have ret: "tk_returns ?tk (heap s) a"
    unfolding tk_returns_def
  proof (intro ballI allI impI)
    fix c and st :: "'w bt_state"
    assume c: "c \<in> set (kids (heap s) a)" and same: "\<forall>x. kids (heap st) x = kids (heap s) x"
    from Suc.prems c have "nested_within n (heap s) c" by simp
    then have "nested_within n (heap st) c"
      using nested_kids_eq [of "heap st" "heap s" n c] same by simp
    then show "\<exists>r st'. bt_tick_internal n (Some c) st = Some (r, st')"
      by (rule Suc.IH)
  qed
  show ?case
  proof (cases "type (heap s a)")
    case BT_SEQUENCE
    then show ?thesis
      using composite_tick_returns [OF tk ret, of BT_SUCCESS]
      by (simp add: bt_tick_sequence_composite)
  next
    case BT_SELECTOR
    then show ?thesis
      using composite_tick_returns [OF tk ret, of BT_FAILURE]
      by (simp add: bt_tick_selector_composite)
  next
    case BT_INVERTER
    then show ?thesis
      using bt_tick_inverter_returns [OF tk ret] by simp
  qed (simp_all add: prod_eq_iff)
qed

subsection \<open>One tick of a sequence or selector node in a tree\<close>

text \<open>
  \<open>advancing\<close> is the child status on which the loop of a composite goes on to the next
  child.
\<close>

definition is_composite :: "bt_node_type_t \<Rightarrow> bool" where
  "is_composite ty = (ty = BT_SEQUENCE \<or> ty = BT_SELECTOR)"

definition advancing :: "bt_node_type_t \<Rightarrow> bt_status_t" where
  "advancing ty = (if ty = BT_SEQUENCE then BT_SUCCESS else BT_FAILURE)"

lemma nested_above_kids: "nested_within n h a \<Longrightarrow> above_kids h a"
  unfolding above_kids_def using nested_acyclic by blast

lemma composite_node_tick:
  fixes s :: "'w bt_state"
  assumes comp: "is_composite (type (heap s a))" and nest: "nested_within n (heap s) a"
  shows "\<exists>r s' evs k tail.
      bt_tick n (Some a) s = Some (r, s')
    \<and> frame (reach (heap s) a) s s'
    \<and> calls s' = calls s @ evs
    \<and> status (heap s' a) = r
    \<and> unat (current_child (heap s' a)) = k
    \<and> entry_index (heap s) a \<le> k
    \<and> own_calls a evs =
         enter_call (heap s) a
           @ passed (advancing (type (heap s a))) a (entry_index (heap s) a) k @ tail
           @ exit_call (heap s) a r
    \<and> composite_outcome (advancing (type (heap s a))) (heap s) a k r tail"
proof -
  let ?adv = "advancing (type (heap s a))"
  obtain m where n: "n = Suc m" using nest by (cases n) auto
  let ?tk = "bt_tick_internal m :: addr option \<Rightarrow> 'w bt_state \<Rightarrow> _"
  have tk: "tk_frames ?tk" by (rule bt_tick_internal_frames)
  have ak: "above_kids (heap s) a" using nest by (rule nested_above_kids)
  have adv: "?adv = BT_SUCCESS \<or> ?adv = BT_FAILURE" by (simp add: advancing_def)
  from bt_tick_internal_returns [OF nest] obtain r s' where
    run: "bt_tick_internal n (Some a) s = Some (r, s')" by blast
  then have "composite_tick ?adv ?tk a s = Some (r, s')"
    using comp
    by (auto simp: n is_composite_def advancing_def bt_tick_sequence_composite
        bt_tick_selector_composite)
  from composite_tick_trace [OF tk ak adv this]
  obtain evs k tail where
    "calls s' = calls s @ evs" "status (heap s' a) = r"
    "unat (current_child (heap s' a)) = k" "entry_index (heap s) a \<le> k"
    "own_calls a evs =
       enter_call (heap s) a @ passed ?adv a (entry_index (heap s) a) k @ tail
         @ exit_call (heap s) a r"
    "composite_outcome ?adv (heap s) a k r tail"
    by auto
  moreover have "bt_tick n (Some a) s = Some (r, s')"
    using run by (simp add: bt_tick_def)
  moreover have "frame (reach (heap s) a) s s'"
    using run by (rule bt_tick_internal_frame)
  ultimately show ?thesis by blast
qed




subsection \<open>Hooks over one tick and over an episode\<close>

text \<open>
  \<open>episodic h a\<close>: the node is one whose handler runs episodes with hooks, a Sequence, a
  Selector, or an Inverter with \<open>children_count = 1\<close> and a child in its slot.
  \<open>run_episode m n drv a s\<close> ticks the node \<open>a\<close> until a tick returns a status other than
  Running, at most \<open>m\<close> times; after a tick that returned Running the driver changes the
  user's state by \<open>drv\<close> and ticks again.
\<close>

fun is_child_return :: "event \<Rightarrow> bool" where
  "is_child_return (ChildTick a j cs) = True"
| "is_child_return e = False"





lemma passed_child_returns: "\<forall>e \<in> set (passed adv a i k). is_child_return e"
  by (simp add: passed_def)








subsection \<open>The cursor stays within the children\<close>

text \<open>
  \<open>cursor_ok h x\<close>: the cursor of node \<open>x\<close> is at most its \<open>children_count\<close>.
\<close>

definition cursor_ok :: "(addr \<Rightarrow> 'w bt_node_t) \<Rightarrow> addr \<Rightarrow> bool" where
  "cursor_ok h x = (current_child (h x) \<le> children_count (h x))"

definition tk_keeps_cursor ::
  "(addr option \<Rightarrow> 'w bt_state \<Rightarrow> (bt_status_t \<times> 'w bt_state) option) \<Rightarrow> addr \<Rightarrow> bool" where
  "tk_keeps_cursor tk x =
     (\<forall>c s r s'. tk (Some c) s = Some (r, s') \<longrightarrow> cursor_ok (heap s) x \<longrightarrow> cursor_ok (heap s') x)"

lemma tk_keeps_cursorD:
  "tk_keeps_cursor tk x \<Longrightarrow> tk (Some c) s = Some (r, s') \<Longrightarrow> cursor_ok (heap s) x \<Longrightarrow>
   cursor_ok (heap s') x"
  unfolding tk_keeps_cursor_def by blast

lemma cursor_ok_set_status: "cursor_ok (heap s) x \<Longrightarrow> cursor_ok (heap (set_status a v s)) x"
  by (auto simp: cursor_ok_def)

lemma cursor_ok_set_current_child:
  "cursor_ok (heap s) x \<Longrightarrow> v \<le> children_count (heap s a) \<Longrightarrow>
   cursor_ok (heap (set_current_child a v s)) x"
  by (auto simp: cursor_ok_def)

lemma cursor_ok_write_back:
  assumes "cursor_ok (heap s) x" and "v \<le> children_count (heap s a)"
  shows "cursor_ok (heap (set_status a r (set_current_child a v (record_call e s)))) x"
proof -
  have "cursor_ok (heap (set_current_child a v (record_call e s))) x"
    using assms by (intro cursor_ok_set_current_child) simp_all
  then show ?thesis by (rule cursor_ok_set_status)
qed

lemma composite_loop_cursor:
  "tk_frames tk \<Longrightarrow> tk_keeps_cursor tk x \<Longrightarrow> cursor_ok (heap s) x \<Longrightarrow>
   composite_loop adv tk a i result s = Some (r, s') \<Longrightarrow> cursor_ok (heap s') x"
proof (induction adv tk a i result s rule: composite_loop.induct)
  case (1 adv tk a i result s)
  note tk = "1.prems"(1) and keep = "1.prems"(2) and ok = "1.prems"(3)
  from "1.prems"(4) show ?case
  proof (cases rule: composite_loop_cases)
    case exit
    with ok show ?thesis by simp
  next
    case missing
    show ?thesis unfolding missing(4) using ok by (rule cursor_ok_set_status)
  next
    case (stop c s1)
    have ok1: "cursor_ok (heap s1) x" using keep stop(3) ok by (rule tk_keeps_cursorD)
    have "children_count (heap s1 a) = children_count (heap s a)"
      using only_bookkeeping_fields(4) [OF frame_bookkeeping [OF tk_framesD [OF tk stop(3)]]] .
    with stop(1) have "i \<le> children_count (heap s1 a)" by simp
    with ok1 show ?thesis unfolding stop(5) by (rule cursor_ok_write_back)
  next
    case (advance c s1)
    let ?s2 = "set_current_child a (i + 1) (record_call (ChildTick a (unat i) adv) s1)"
    have ok1: "cursor_ok (heap s1) x" using keep advance(3) ok by (rule tk_keeps_cursorD)
    have "children_count (heap s1 a) = children_count (heap s a)"
      using only_bookkeeping_fields(4) [OF frame_bookkeeping [OF tk_framesD [OF tk advance(3)]]] .
    with advance(1) have "i + 1 \<le> children_count (heap s1 a)" by (simp add: inc_le)
    with ok1 have ok2: "cursor_ok (heap ?s2) x"
      by (intro cursor_ok_set_current_child) simp_all
    from "1.IH" [OF advance(1,2,3) refl refl _ tk keep ok2 advance(4)]
    show ?thesis by simp
  qed
qed

lemma composite_tick_cursor:
  assumes "tk_frames tk" and "tk_keeps_cursor tk x" and "cursor_ok (heap s) x"
    and "composite_tick adv tk a s = Some (r, s')"
  shows "cursor_ok (heap s') x"
proof -
  let ?s1 = "composite_entry a s"
  have ok1: "cursor_ok (heap ?s1) x"
    using assms(3) by (auto simp: composite_entry_def cursor_ok_def)
  from assms(4) obtain result s2 where
    loop: "composite_loop adv tk a (current_child (heap ?s1 a)) adv ?s1 = Some (result, s2)" and
    fin: "composite_finish adv a result s2 = (r, s')"
    by (auto simp: composite_tick_steps split: option.splits)
  have "cursor_ok (heap s2) x"
    using assms(1,2) ok1 loop by (rule composite_loop_cursor)
  then show ?thesis
    using fin by (auto simp: composite_finish_def cursor_ok_def split: if_splits)
qed

lemma bt_tick_inverter_cursor:
  assumes "tk_keeps_cursor tk x" and "cursor_ok (heap s) x"
    and "bt_tick_inverter tk (Some a) s = Some (r, s')"
  shows "cursor_ok (heap s') x"
proof (cases "children_count (heap s a) \<noteq> 1")
  case True
  with assms show ?thesis by (simp add: bt_tick_inverter_steps)
next
  case one: False
  have ok1: "cursor_ok (heap (inverter_entry a s)) x"
    using assms(2) by (simp add: inverter_entry_def)
  show ?thesis
  proof (cases "bt_child_at s (Some a) 0")
    case None
    with assms(3) one ok1 show ?thesis by (auto simp: bt_tick_inverter_steps)
  next
    case (Some c)
    with assms(3) one obtain cs s2 where
      child: "tk (Some c) (inverter_entry a s) = Some (cs, s2)" and
      s': "s' = inverter_finish a cs s2"
      by (auto simp: bt_tick_inverter_steps split: option.splits)
    have "cursor_ok (heap s2) x" using assms(1) child ok1 by (rule tk_keeps_cursorD)
    then show ?thesis
      unfolding s' by (auto simp: inverter_finish_def Let_def cursor_ok_def)
  qed
qed

lemma bt_tick_internal_cursor:
  fixes s :: "'w bt_state"
  shows "bt_tick_internal n (Some a) s = Some (r, s') \<Longrightarrow> cursor_ok (heap s) x \<Longrightarrow>
    cursor_ok (heap s') x"
proof (induction n arbitrary: a s r s')
  case 0
  then show ?case by simp
next
  case (Suc n)
  let ?tk = "bt_tick_internal n :: addr option \<Rightarrow> 'w bt_state \<Rightarrow> _"
  have tk: "tk_frames ?tk" by (rule bt_tick_internal_frames)
  have keep: "tk_keeps_cursor ?tk x"
    unfolding tk_keeps_cursor_def using Suc.IH by blast
  show ?case
  proof (cases "type (heap s a)")
    case BT_SEQUENCE
    with Suc.prems show ?thesis
      by (auto simp: bt_tick_sequence_composite intro: composite_tick_cursor [OF tk keep])
  next
    case BT_SELECTOR
    with Suc.prems show ?thesis
      by (auto simp: bt_tick_selector_composite intro: composite_tick_cursor [OF tk keep])
  next
    case BT_INVERTER
    with Suc.prems show ?thesis
      by (auto intro: bt_tick_inverter_cursor [OF keep])
  qed (use Suc.prems in \<open>auto simp: bt_tick_leaf_def cursor_ok_def split: option.splits prod.splits\<close>)
qed

lemma length_passed [simp]: "length (passed adv a i k) = k - i"
  by (simp add: passed_def)

lemma passed_snoc: "i \<le> k \<Longrightarrow> passed adv a i (Suc k) = passed adv a i k @ [ChildTick a k adv]"
  by (simp add: passed_def)

lemma passed_eq_iff:
  assumes "i \<le> k" and "i \<le> k'"
  shows "passed adv a i k = passed adv a i k' \<longleftrightarrow> k = k'"
proof
  assume "passed adv a i k = passed adv a i k'"
  then have "length (passed adv a i k) = length (passed adv a i k')" by simp
  with assms show "k = k'" by simp
qed simp

lemma passed_stopped_neq:
  assumes "r \<noteq> adv" and "i \<le> k"
  shows "passed adv a i k @ [ChildTick a k r] \<noteq> passed adv a i k'"
proof
  assume eq: "passed adv a i k @ [ChildTick a k r] = passed adv a i k'"
  then have "length (passed adv a i k @ [ChildTick a k r]) = length (passed adv a i k')"
    by simp
  with assms(2) have "k' = Suc k" by simp
  with eq assms show False by (simp add: passed_snoc)
qed

lemma child_returns_of_own_calls:
  assumes "own_calls a evs = enter_call h a @ passed adv a i k @ tail @ exit_call h a r"
    and "tail = [] \<or> tail = [ChildTick a k r]"
  shows "filter is_child_return (own_calls a evs) = passed adv a i k @ tail"
proof -
  have "filter is_child_return (passed adv a i k) = passed adv a i k"
    using passed_child_returns [of adv a i k] by (simp add: filter_id_conv)
  moreover have "filter is_child_return tail = tail"
    using assms(2) by auto
  ultimately show ?thesis
    unfolding assms(1) by (simp add: enter_call_def exit_call_def)
qed

subsection \<open>One tick of a composite as the chain of the ticks of its children\<close>

text \<open>
  \<open>loop_head adv tk a s k\<close> is the state at the top of the body of the \<^verbatim>\<open>while\<close> loop
  of \<^verbatim>\<open>bt_tick_sequence\<close> (\<open>adv\<close> is Success) or \<^verbatim>\<open>bt_tick_selector\<close> (\<open>adv\<close> is
  Failure) when the loop variable \<^verbatim>\<open>i\<close> is \<open>k\<close>, in the tick of node \<open>a\<close> that starts in
  state \<open>s\<close>; it is \<open>None\<close> if the loop never gets there. The first head is at the entry
  index, in the state after the entry step. The head at \<open>k + 1\<close> comes from the head at \<open>k\<close>
  by the tick \<open>tk\<close> of the child in slot \<open>k\<close>, which has to return \<open>adv\<close>, and the write of
  \<open>k + 1\<close> to the cursor. \<open>composite_end adv tk a k t\<close> is what the handler does when the
  loop ends at the head \<open>k\<close> in state \<open>t\<close>: the children are exhausted, or slot \<open>k\<close> is
  empty, or the tick of the child in slot \<open>k\<close> returns something else than \<open>adv\<close>. The lemmas
  below show that the handlers of the source compute exactly this chain.
\<close>

primrec loop_head ::
  "bt_status_t \<Rightarrow> (addr option \<Rightarrow> 'w bt_state \<Rightarrow> (bt_status_t \<times> 'w bt_state) option) \<Rightarrow>
   addr \<Rightarrow> 'w bt_state \<Rightarrow> nat \<Rightarrow> 'w bt_state option" where
  "loop_head adv tk a s 0 =
     (if entry_index (heap s) a = 0 then Some (composite_entry a s) else None)"
| "loop_head adv tk a s (Suc k) =
     (if entry_index (heap s) a = Suc k then Some (composite_entry a s)
      else case loop_head adv tk a s k of
             None \<Rightarrow> None
           | Some t \<Rightarrow>
               if k < unat (children_count (heap t a)) then
                 (case child_slot (heap t) a k of
                    None \<Rightarrow> None
                  | Some c \<Rightarrow>
                      (case tk (Some c) t of
                         None \<Rightarrow> None
                       | Some (cs, u) \<Rightarrow>
                           if cs = adv
                           then Some (set_current_child a (of_nat (Suc k))
                                  (record_call (ChildTick a k cs) u))
                           else None))
               else None)"

definition composite_end ::
  "bt_status_t \<Rightarrow> (addr option \<Rightarrow> 'w bt_state \<Rightarrow> (bt_status_t \<times> 'w bt_state) option) \<Rightarrow>
   addr \<Rightarrow> nat \<Rightarrow> 'w bt_state \<Rightarrow> (bt_status_t \<times> 'w bt_state) option" where
  "composite_end adv tk a k t =
     (if unat (children_count (heap t a)) \<le> k
      then Some (adv, bt_call_exit (Some a) (set_status a adv t))
      else case child_slot (heap t) a k of
             None \<Rightarrow> Some (BT_ERROR, bt_call_exit (Some a) (set_status a BT_ERROR t))
           | Some c \<Rightarrow>
               (case tk (Some c) t of
                  None \<Rightarrow> None
                | Some (cs, u) \<Rightarrow>
                    if cs = adv then None
                    else Some (cs,
                      if cs = BT_SUCCESS \<or> cs = BT_FAILURE \<or> cs = BT_ERROR
                      then bt_call_exit (Some a)
                             (set_status a cs (set_current_child a (of_nat k)
                               (record_call (ChildTick a k cs) u)))
                      else set_status a cs (set_current_child a (of_nat k)
                             (record_call (ChildTick a k cs) u)))))"

lemma word16_of_nat:
  assumes "k < unat (c :: 16 word)"
  shows "unat (of_nat k :: 16 word) = k" "(of_nat k :: 16 word) < c"
    "unat (of_nat (Suc k) :: 16 word) = Suc k" "(of_nat k :: 16 word) + 1 = of_nat (Suc k)"
proof -
  have "unat c < 2 ^ 16" using unsigned_less [of c] by simp
  with assms have k: "k < 2 ^ 16" "Suc k < 2 ^ 16" by simp_all
  show u: "unat (of_nat k :: 16 word) = k"
    using k(1) by (simp add: unat_of_nat)
  show "(of_nat k :: 16 word) < c"
    using assms u by (simp add: word_less_nat_alt)
  show "unat (of_nat (Suc k) :: 16 word) = Suc k"
    using k(2) by (simp add: unat_of_nat del: of_nat_Suc)
  show "(of_nat k :: 16 word) + 1 = of_nat (Suc k)" by simp
qed

lemma child_slot_kids: "child_slot h a k = Some c \<Longrightarrow> c \<in> set (kids h a)"
  by (auto simp: child_slot_def kids_iff split: option.splits if_splits)

lemma loop_head_Suc_cases:
  assumes "loop_head adv tk a s (Suc k) = Some t'" and "entry_index (heap s) a \<noteq> Suc k"
  obtains t c u where "loop_head adv tk a s k = Some t"
    and "k < unat (children_count (heap t a))" and "child_slot (heap t) a k = Some c"
    and "tk (Some c) t = Some (adv, u)"
    and "t' = set_current_child a (of_nat (Suc k)) (record_call (ChildTick a k adv) u)"
  using assms by (auto split: option.splits if_splits)

lemma loop_head_inv:
  "tk_frames tk \<Longrightarrow> loop_head adv tk a s k = Some t \<Longrightarrow>
   entry_index (heap s) a \<le> k \<and> unat (current_child (heap t a)) = k
   \<and> frame (reach (heap s) a) s t"
proof (induction k arbitrary: t)
  case 0
  then have "entry_index (heap s) a = 0" "t = composite_entry a s"
    by (auto split: if_splits)
  then show ?case
    using composite_entry_facts(2) [of a s] composite_entry_frame [of a "reach (heap s) a" s]
    by (simp add: reach.self)
next
  case (Suc k)
  show ?case
  proof (cases "entry_index (heap s) a = Suc k")
    case True
    with Suc.prems(2) have "t = composite_entry a s" by simp
    with True show ?thesis
      using composite_entry_facts(2) [of a s] composite_entry_frame [of a "reach (heap s) a" s]
      by (simp add: reach.self)
  next
    case False
    from Suc.prems(2) False obtain t0 c u where
      h0: "loop_head adv tk a s k = Some t0" and lt: "k < unat (children_count (heap t0 a))" and
      slot: "child_slot (heap t0) a k = Some c" and child: "tk (Some c) t0 = Some (adv, u)" and
      t: "t = set_current_child a (of_nat (Suc k)) (record_call (ChildTick a k adv) u)"
      by (rule loop_head_Suc_cases)
    from Suc.IH [OF Suc.prems(1) h0] have le: "entry_index (heap s) a \<le> k" and
      f0: "frame (reach (heap s) a) s t0" by simp_all
    have "frame (reach (heap t0) c) t0 u" using Suc.prems(1) child by (rule tk_framesD)
    then have "frame (reach (heap t0) a) t0 u"
      by (rule frame_mono) (rule reach_kid_subset [OF child_slot_kids [OF slot]])
    then have f1: "frame (reach (heap s) a) t0 u"
      using frame_reach [OF f0] by simp
    have "frame (reach (heap s) a) u t"
      unfolding t by (rule frame_advance) (rule reach.self)
    with f0 f1 have "frame (reach (heap s) a) s t" by (blast intro: frame_trans)
    moreover have "unat (current_child (heap t a)) = Suc k"
      using word16_of_nat(3) [OF lt] by (simp add: t)
    ultimately show ?thesis using le by simp
  qed
qed

lemma loop_head_tree:
  assumes "tk_frames tk" and "loop_head adv tk a s k = Some t"
  shows "children_count (heap t a) = children_count (heap s a)"
    "child_slot (heap t) a i = child_slot (heap s) a i"
    "on_exit (heap t a) = on_exit (heap s a)"
proof -
  from loop_head_inv [OF assms] have f: "frame (reach (heap s) a) s t" by simp
  note b = only_bookkeeping_fields [OF frame_bookkeeping [OF f, of a]]
  show "children_count (heap t a) = children_count (heap s a)" by (rule b)
  show "child_slot (heap t) a i = child_slot (heap s) a i"
    by (rule child_slot_cong) (rule frame_bookkeeping [OF f])
  show "on_exit (heap t a) = on_exit (heap s a)" by (rule b)
qed

lemma word16_cursor: "unat (w :: 16 word) = k \<Longrightarrow> w = of_nat k"
  by auto

text \<open>The loop started at the entry is the loop started at any later head.\<close>

lemma composite_loop_from_head:
  "tk_frames tk \<Longrightarrow> loop_head adv tk a s k = Some t \<Longrightarrow>
   composite_loop adv tk a (current_child (heap (composite_entry a s) a)) result
     (composite_entry a s)
   = composite_loop adv tk a (of_nat k) result t"
proof (induction k arbitrary: t)
  case 0
  then have "entry_index (heap s) a = 0" "t = composite_entry a s"
    by (auto split: if_splits)
  then show ?case
    using word16_cursor [OF composite_entry_facts(2) [of a s]] by simp
next
  case (Suc k)
  show ?case
  proof (cases "entry_index (heap s) a = Suc k")
    case True
    with Suc.prems(2) have "t = composite_entry a s" by simp
    with True show ?thesis
      using word16_cursor [OF composite_entry_facts(2) [of a s]] by simp
  next
    case False
    from Suc.prems(2) False obtain t0 c u where
      h0: "loop_head adv tk a s k = Some t0" and lt: "k < unat (children_count (heap t0 a))" and
      slot: "child_slot (heap t0) a k = Some c" and child: "tk (Some c) t0 = Some (adv, u)" and
      t: "t = set_current_child a (of_nat (Suc k)) (record_call (ChildTick a k adv) u)"
      by (rule loop_head_Suc_cases)
    note w = word16_of_nat [OF lt]
    have at: "bt_child_at t0 (Some a) (of_nat k) = Some c"
      using slot by (simp add: bt_child_at_slot w(1))
    have "composite_loop adv tk a (of_nat k) result t0
        = composite_loop adv tk a (of_nat k + 1) result
            (set_current_child a (of_nat k + 1)
              (record_call (ChildTick a (unat (of_nat k :: 16 word)) adv) u))"
      using composite_loop_advance [where tk = tk and result = result, OF w(2) at child] .
    then have "composite_loop adv tk a (of_nat k) result t0
        = composite_loop adv tk a (of_nat (Suc k)) result t"
      unfolding w(1) w(4) t .
    with Suc.IH [OF Suc.prems(1) h0] show ?thesis by simp
  qed
qed

lemma composite_tick_from_head:
  assumes tk: "tk_frames tk" and adv: "adv = BT_SUCCESS \<or> adv = BT_FAILURE"
    and head: "loop_head adv tk a s k = Some t"
    and fin: "composite_end adv tk a k t = Some (r, s')"
  shows "composite_tick adv tk a s = Some (r, s')"
proof -
  let ?i = "of_nat k :: 16 word"
  from loop_head_inv [OF tk head] have cur: "unat (current_child (heap t a)) = k" by simp
  then have i: "current_child (heap t a) = ?i" by (rule word16_cursor)
  have ui: "unat ?i = k" using cur i by simp
  have tick: "composite_tick adv tk a s =
      (case composite_loop adv tk a ?i adv t of
         None \<Rightarrow> None
       | Some (result, s2) \<Rightarrow> Some (composite_finish adv a result s2))"
    using composite_loop_from_head [OF tk head, of adv] by (simp add: composite_tick_steps)
  show ?thesis
  proof (cases "unat (children_count (heap t a)) \<le> k")
    case True
    then have ge: "children_count (heap t a) \<le> ?i"
      by (simp add: word_le_nat_alt ui)
    then have "\<not> ?i < children_count (heap t a)" by simp
    then have l: "composite_loop adv tk a ?i adv t = Some (adv, t)"
      by (rule composite_loop_exit)
    have f: "composite_finish adv a adv t
        = (adv, bt_call_exit (Some a) (set_status a adv t))"
      using adv ge by (auto simp: composite_finish_def i)
    from fin True have rs: "r = adv" "s' = bt_call_exit (Some a) (set_status a adv t)"
      by (auto simp: composite_end_def)
    show ?thesis unfolding tick rs l using f by simp
  next
    case False
    then have lt: "?i < children_count (heap t a)"
      by (simp add: word_less_nat_alt ui)
    then have nge: "\<not> children_count (heap t a) \<le> ?i" by simp
    show ?thesis
    proof (cases "child_slot (heap t) a k")
      case None
      then have "bt_child_at t (Some a) ?i = None" by (simp add: bt_child_at_slot ui)
      with lt have l: "composite_loop adv tk a ?i adv t = Some (BT_ERROR, set_status a BT_ERROR t)"
        by (rule composite_loop_missing)
      have f: "composite_finish adv a BT_ERROR (set_status a BT_ERROR t)
          = (BT_ERROR, bt_call_exit (Some a) (set_status a BT_ERROR t))"
        using nge by (simp add: composite_finish_def i)
      from fin False None have rs: "r = BT_ERROR"
        "s' = bt_call_exit (Some a) (set_status a BT_ERROR t)"
        by (auto simp: composite_end_def)
      show ?thesis unfolding tick rs l using f by simp
    next
      case (Some c)
      then have at: "bt_child_at t (Some a) ?i = Some c" by (simp add: bt_child_at_slot ui)
      from fin False Some obtain u where child: "tk (Some c) t = Some (r, u)" and ne: "r \<noteq> adv"
        by (auto simp: composite_end_def split: option.splits if_splits)
      let ?w = "set_status a r (set_current_child a ?i (record_call (ChildTick a k r) u))"
      have s': "s' = (if r = BT_SUCCESS \<or> r = BT_FAILURE \<or> r = BT_ERROR
          then bt_call_exit (Some a) ?w else ?w)"
        using fin False Some child ne by (simp add: composite_end_def)
      have l: "composite_loop adv tk a ?i adv t = Some (r, ?w)"
        using composite_loop_stop [where tk = tk and result = adv, OF lt at child ne]
        by (simp add: ui)
      have "children_count (heap u a) = children_count (heap t a)"
        using only_bookkeeping_fields(4) [OF frame_bookkeeping [OF tk_framesD [OF tk child]]] .
      then have f: "composite_finish adv a r ?w = (r, s')"
        using nge by (simp add: composite_finish_def s')
      show ?thesis unfolding tick l using f by simp
    qed
  qed
qed

lemma composite_loop_reaches_end:
  "tk_frames tk \<Longrightarrow> loop_head adv tk a s (unat i) = Some t0 \<Longrightarrow>
   composite_loop adv tk a i result t0 = Some (res, s2) \<Longrightarrow>
   \<exists>k t. loop_head adv tk a s k = Some t \<and> composite_end adv tk a k t \<noteq> None"
proof (induction adv tk a i result t0 rule: composite_loop.induct)
  case (1 adv tk a i result t0)
  note tk = "1.prems"(1) and head = "1.prems"(2)
  from "1.prems"(3) show ?case
  proof (cases rule: composite_loop_cases)
    case exit
    then have "unat (children_count (heap t0 a)) \<le> unat i"
      by (simp add: word_less_nat_alt)
    then have "composite_end adv tk a (unat i) t0 \<noteq> None"
      by (simp add: composite_end_def)
    with head show ?thesis by blast
  next
    case missing
    then have "composite_end adv tk a (unat i) t0 \<noteq> None"
      by (simp add: composite_end_def bt_child_at_slot word_less_nat_alt)
    with head show ?thesis by blast
  next
    case (stop c u)
    then have "composite_end adv tk a (unat i) t0 \<noteq> None"
      by (simp add: composite_end_def bt_child_at_slot word_less_nat_alt)
    with head show ?thesis by blast
  next
    case (advance c u)
    let ?t = "set_current_child a (i + 1) (record_call (ChildTick a (unat i) adv) u)"
    have lt: "unat i < unat (children_count (heap t0 a))"
      using advance(1) by (simp add: word_less_nat_alt)
    have suc: "unat (i + 1) = Suc (unat i)" using advance(1) by (rule word16_succ)
    have "entry_index (heap s) a \<le> unat i"
      using loop_head_inv [OF tk head] by simp
    then have ne: "entry_index (heap s) a \<noteq> Suc (unat i)" by simp
    have "(of_nat (Suc (unat i)) :: 16 word) = i + 1" by simp
    then have "loop_head adv tk a s (Suc (unat i)) = Some ?t"
      using head lt advance(2,3) ne by (simp add: bt_child_at_slot del: of_nat_Suc)
    then have "loop_head adv tk a s (unat (i + 1)) = Some ?t" by (simp add: suc)
    from "1.IH" [OF advance(1,2,3) refl refl _ tk this advance(4)]
    show ?thesis by simp
  qed
qed

lemma composite_tick_reaches_end:
  assumes tk: "tk_frames tk" and adv: "adv = BT_SUCCESS \<or> adv = BT_FAILURE"
    and run: "composite_tick adv tk a s = Some (r, s')"
  shows "\<exists>k t. loop_head adv tk a s k = Some t \<and> composite_end adv tk a k t = Some (r, s')"
proof -
  let ?s1 = "composite_entry a s"
  let ?i = "current_child (heap ?s1 a)"
  from run obtain result s2 where
    loop: "composite_loop adv tk a ?i adv ?s1 = Some (result, s2)"
    by (auto simp: composite_tick_steps split: option.splits)
  have "loop_head adv tk a s (unat ?i) = Some ?s1"
    unfolding composite_entry_facts(2) by (cases "entry_index (heap s) a") simp_all
  from composite_loop_reaches_end [OF tk this loop] obtain k t where
    head: "loop_head adv tk a s k = Some t" and "composite_end adv tk a k t \<noteq> None"
    by blast
  then obtain r0 s0 where fin: "composite_end adv tk a k t = Some (r0, s0)" by auto
  from composite_tick_from_head [OF tk adv head fin] run have "r0 = r" "s0 = s'" by simp_all
  with head fin show ?thesis by blast
qed

text \<open>Once the loop has ended at a head, there is no later head; and none before the entry.\<close>

lemma loop_head_none_after:
  assumes tk: "tk_frames tk" and head: "loop_head adv tk a s k = Some t"
    and fin: "composite_end adv tk a k t \<noteq> None" and "k < j"
  shows "loop_head adv tk a s j = None"
proof -
  from loop_head_inv [OF tk head] have le: "entry_index (heap s) a \<le> k" by simp
  have first: "loop_head adv tk a s (Suc k) = None"
    using head fin le by (auto simp: composite_end_def split: option.splits if_splits)
  have "loop_head adv tk a s (Suc k + d) = None" for d
  proof (induction d)
    case 0
    show ?case using first by simp
  next
    case (Suc d)
    then show ?case using le by simp
  qed
  from this [of "j - Suc k"] \<open>k < j\<close> show ?thesis by simp
qed


lemma loop_head_entry:
  "loop_head adv tk a s (entry_index (heap s) a) = Some (composite_entry a s)"
  by (cases "entry_index (heap s) a") simp_all

lemma loop_head_between:
  assumes tk: "tk_frames tk"
  shows "loop_head adv tk a s k = Some t \<Longrightarrow> entry_index (heap s) a \<le> i \<Longrightarrow> i \<le> k \<Longrightarrow>
    \<exists>ti. loop_head adv tk a s i = Some ti"
proof (induction k arbitrary: t)
  case 0
  then show ?case by simp
next
  case (Suc k)
  show ?case
  proof (cases "i = Suc k")
    case True
    with Suc.prems(1) show ?thesis by simp
  next
    case False
    with Suc.prems(3) have ik: "i \<le> k" by simp
    with Suc.prems(2) have "entry_index (heap s) a \<noteq> Suc k" by simp
    with Suc.prems(1) obtain t0 where "loop_head adv tk a s k = Some t0"
      by (auto split: option.splits)
    from Suc.IH [OF this Suc.prems(2) ik] show ?thesis .
  qed
qed

lemma loop_head_step:
  assumes tk: "tk_frames tk" and head: "loop_head adv tk a s k = Some t"
    and le: "entry_index (heap s) a \<le> i" and lt: "i < k"
  shows "\<exists>ti c u. loop_head adv tk a s i = Some ti
     \<and> i < unat (children_count (heap s a)) \<and> child_slot (heap s) a i = Some c
     \<and> tk (Some c) ti = Some (adv, u)
     \<and> loop_head adv tk a s (Suc i)
         = Some (set_current_child a (of_nat (Suc i)) (record_call (ChildTick a i adv) u))"
proof -
  from loop_head_between [OF tk head, of "Suc i"] le lt obtain t' where
    h': "loop_head adv tk a s (Suc i) = Some t'" by auto
  have ne: "entry_index (heap s) a \<noteq> Suc i" using le by simp
  from h' ne obtain ti c u where
    hi: "loop_head adv tk a s i = Some ti" and "i < unat (children_count (heap ti a))" and
    "child_slot (heap ti) a i = Some c" and "tk (Some c) ti = Some (adv, u)" and
    "t' = set_current_child a (of_nat (Suc i)) (record_call (ChildTick a i adv) u)"
    by (rule loop_head_Suc_cases)
  then show ?thesis
    using h' loop_head_tree [OF tk hi] by auto
qed

lemma composite_end_cases:
  "composite_end adv tk a k t = Some (r, s') \<longleftrightarrow>
     (unat (children_count (heap t a)) \<le> k \<and> r = adv
        \<and> s' = bt_call_exit (Some a) (set_status a adv t))
   \<or> (k < unat (children_count (heap t a)) \<and> child_slot (heap t) a k = None \<and> r = BT_ERROR
        \<and> s' = bt_call_exit (Some a) (set_status a BT_ERROR t))
   \<or> (\<exists>c u. k < unat (children_count (heap t a)) \<and> child_slot (heap t) a k = Some c
        \<and> tk (Some c) t = Some (r, u) \<and> r \<noteq> adv
        \<and> s' = (if r = BT_RUNNING
                 then set_status a r (set_current_child a (of_nat k)
                        (record_call (ChildTick a k r) u))
                 else bt_call_exit (Some a)
                        (set_status a r (set_current_child a (of_nat k)
                          (record_call (ChildTick a k r) u)))))"
  by (cases r) (auto simp: composite_end_def split: option.splits)

text \<open>
  One tick of a sequence or selector node in a tree, as the chain of the real ticks of its
  children: the result and the state after the tick are those of \<open>composite_end\<close> at the
  last head of the loop.
\<close>

lemma composite_node_run:
  fixes s :: "'w bt_state"
  assumes comp: "is_composite (type (heap s a))" and nest: "nested_within (Suc m) (heap s) a"
  shows "\<exists>r s' k t.
      bt_tick (Suc m) (Some a) s = Some (r, s')
    \<and> loop_head (advancing (type (heap s a))) (bt_tick_internal m) a s k = Some t
    \<and> composite_end (advancing (type (heap s a))) (bt_tick_internal m) a k t = Some (r, s')"
proof -
  let ?adv = "advancing (type (heap s a))"
  let ?tk = "bt_tick_internal m :: addr option \<Rightarrow> 'w bt_state \<Rightarrow> _"
  have tk: "tk_frames ?tk" by (rule bt_tick_internal_frames)
  have adv: "?adv = BT_SUCCESS \<or> ?adv = BT_FAILURE" by (simp add: advancing_def)
  from bt_tick_internal_returns [OF nest] obtain r s' where
    run: "bt_tick_internal (Suc m) (Some a) s = Some (r, s')" by blast
  then have "composite_tick ?adv ?tk a s = Some (r, s')"
    using comp
    by (auto simp: is_composite_def advancing_def bt_tick_sequence_composite
        bt_tick_selector_composite)
  from composite_tick_reaches_end [OF tk adv this] run show ?thesis
    by (auto simp: bt_tick_def)
qed

lemma composite_node_from_head:
  fixes s :: "'w bt_state"
  assumes comp: "is_composite (type (heap s a))"
    and head: "loop_head (advancing (type (heap s a))) (bt_tick_internal m) a s k = Some t"
    and fin: "composite_end (advancing (type (heap s a))) (bt_tick_internal m) a k t
              = Some (r, s')"
  shows "bt_tick (Suc m) (Some a) s = Some (r, s')"
proof -
  let ?adv = "advancing (type (heap s a))"
  let ?tk = "bt_tick_internal m :: addr option \<Rightarrow> 'w bt_state \<Rightarrow> _"
  have tk: "tk_frames ?tk" by (rule bt_tick_internal_frames)
  have adv: "?adv = BT_SUCCESS \<or> ?adv = BT_FAILURE" by (simp add: advancing_def)
  from composite_tick_from_head [OF tk adv head fin] comp show ?thesis
    by (auto simp: bt_tick_def is_composite_def advancing_def bt_tick_sequence_composite
        bt_tick_selector_composite)
qed

lemma composite_end_status:
  assumes "composite_end adv tk a k t = Some (r, s')"
  shows "status (heap s' a) = r"
  using assms unfolding composite_end_cases by auto

lemma composite_end_cursor:
  assumes "composite_end adv tk a k t = Some (r, s')"
    and "unat (current_child (heap t a)) = k"
  shows "unat (current_child (heap s' a)) = k"
  using assms unfolding composite_end_cases
proof (elim disjE conjE exE)
  fix c u
  assume "k < unat (children_count (heap t a))"
    and s': "s' = (if r = BT_RUNNING
                 then set_status a r (set_current_child a (of_nat k)
                        (record_call (ChildTick a k r) u))
                 else bt_call_exit (Some a)
                        (set_status a r (set_current_child a (of_nat k)
                          (record_call (ChildTick a k r) u))))"
  then show ?thesis using word16_of_nat(1) [of k "children_count (heap t a)"] by simp
qed simp_all


lemma composite_node_full:
  fixes s :: "'w bt_state"
  assumes comp: "is_composite (type (heap s a))" and nest: "nested_within (Suc m) (heap s) a"
    and adv: "adv = advancing (type (heap s a))"
  shows "\<exists>r s' k t evs tail.
      bt_tick (Suc m) (Some a) s = Some (r, s')
    \<and> status (heap s' a) = r
    \<and> unat (current_child (heap s' a)) = k
    \<and> entry_index (heap s) a \<le> k
    \<and> (\<forall>i. entry_index (heap s) a \<le> i \<and> i < k \<longrightarrow>
          (\<exists>ti c u. loop_head adv (bt_tick_internal m) a s i = Some ti
             \<and> i < unat (children_count (heap s a)) \<and> child_slot (heap s) a i = Some c
             \<and> bt_tick_internal m (Some c) ti = Some (adv, u)
             \<and> loop_head adv (bt_tick_internal m) a s (Suc i)
                 = Some (set_current_child a (of_nat (Suc i))
                     (record_call (ChildTick a i adv) u))))
    \<and> loop_head adv (bt_tick_internal m) a s k = Some t
    \<and> unat (current_child (heap t a)) = k
    \<and> calls s' = calls s @ evs
    \<and> own_calls a evs =
         enter_call (heap s) a @ passed adv a (entry_index (heap s) a) k @ tail
           @ exit_call (heap s) a r
    \<and> ((r = adv \<and> tail = []
          \<and> k = max (entry_index (heap s) a) (unat (children_count (heap s a)))
          \<and> s' = bt_call_exit (Some a) (set_status a adv t))
      \<or> (r = BT_ERROR \<and> tail = []
          \<and> k < unat (children_count (heap s a)) \<and> child_slot (heap s) a k = None
          \<and> s' = bt_call_exit (Some a) (set_status a BT_ERROR t))
      \<or> (\<exists>c u. r \<noteq> adv \<and> tail = [ChildTick a k r]
          \<and> k < unat (children_count (heap s a)) \<and> child_slot (heap s) a k = Some c
          \<and> bt_tick_internal m (Some c) t = Some (r, u)
          \<and> s' = (if r = BT_RUNNING
                   then set_status a r (set_current_child a (of_nat k)
                          (record_call (ChildTick a k r) u))
                   else bt_call_exit (Some a)
                          (set_status a r (set_current_child a (of_nat k)
                            (record_call (ChildTick a k r) u))))))"
proof -
  let ?tk = "bt_tick_internal m :: addr option \<Rightarrow> 'w bt_state \<Rightarrow> _"
  let ?e = "entry_index (heap s) a"
  let ?cnt = "unat (children_count (heap s a))"
  have tk: "tk_frames ?tk" by (rule bt_tick_internal_frames)
  have advs: "adv = BT_SUCCESS \<or> adv = BT_FAILURE" by (simp add: adv advancing_def)
  from composite_node_run [OF comp nest] obtain r s' k t where
    run: "bt_tick (Suc m) (Some a) s = Some (r, s')" and
    head: "loop_head adv ?tk a s k = Some t" and
    fin: "composite_end adv ?tk a k t = Some (r, s')"
    unfolding adv by blast
  from loop_head_inv [OF tk head] have le: "?e \<le> k" and
    cur: "unat (current_child (heap t a)) = k" by simp_all
  note tree = loop_head_tree [OF tk head]
  have st: "status (heap s' a) = r" using fin by (rule composite_end_status)
  have k: "unat (current_child (heap s' a)) = k" using fin cur by (rule composite_end_cursor)
  have steps: "\<forall>i. ?e \<le> i \<and> i < k \<longrightarrow>
          (\<exists>ti c u. loop_head adv ?tk a s i = Some ti
             \<and> i < ?cnt \<and> child_slot (heap s) a i = Some c
             \<and> ?tk (Some c) ti = Some (adv, u)
             \<and> loop_head adv ?tk a s (Suc i)
                 = Some (set_current_child a (of_nat (Suc i))
                     (record_call (ChildTick a i adv) u)))"
    using loop_head_step [OF tk head] by blast
  from composite_node_tick [OF comp nest] run k obtain evs tail where
    c: "calls s' = calls s @ evs" and
    own: "own_calls a evs =
         enter_call (heap s) a @ passed adv a ?e k @ tail @ exit_call (heap s) a r" and
    out: "composite_outcome adv (heap s) a k r tail"
    unfolding adv by auto
  have ending: "(r = adv \<and> tail = [] \<and> k = max ?e ?cnt
          \<and> s' = bt_call_exit (Some a) (set_status a adv t))
      \<or> (r = BT_ERROR \<and> tail = [] \<and> k < ?cnt \<and> child_slot (heap s) a k = None
          \<and> s' = bt_call_exit (Some a) (set_status a BT_ERROR t))
      \<or> (\<exists>c u. r \<noteq> adv \<and> tail = [ChildTick a k r]
          \<and> k < ?cnt \<and> child_slot (heap s) a k = Some c
          \<and> ?tk (Some c) t = Some (r, u)
          \<and> s' = (if r = BT_RUNNING
                   then set_status a r (set_current_child a (of_nat k)
                          (record_call (ChildTick a k r) u))
                   else bt_call_exit (Some a)
                          (set_status a r (set_current_child a (of_nat k)
                            (record_call (ChildTick a k r) u)))))"
    using fin out advs unfolding composite_end_cases composite_outcome_def tree
    by (elim disjE conjE exE) auto
  from run st k le steps head cur c own ending show ?thesis by blast
qed

subsection \<open>The state in which the exit hook is called\<close>






section \<open>The properties claimed of the engine\<close>

text \<open>
  C1. The stored status is not always the result of the last tick: an Inverter node that
  \<^verbatim>\<open>bt_init\<close> has set up with no child has the status \<open>BT_FAILURE\<close>; its tick returns
  \<open>BT_ERROR\<close> and leaves the state, and so the status \<open>BT_FAILURE\<close>, as it was.
\<close>

theorem inverter_error_leaves_status:
  fixes s :: "'w bt_state"
  shows "bt_tick (Suc n) (Some a) (bt_init (Some a) BT_INVERTER f None 0 u s)
       = Some (BT_ERROR, bt_init (Some a) BT_INVERTER f None 0 u s)
    \<and> status (heap (bt_init (Some a) BT_INVERTER f None 0 u s) a) = BT_FAILURE"
  by (simp add: bt_tick_def bt_tick_inverter_steps bt_init_def)



text \<open>
  C3. One tick of a Selector node \<open>a\<close>, in a tree nested no deeper than the bound,
  returns a result \<open>r\<close> and a state \<open>s'\<close> with \<open>status = r\<close> and a cursor \<open>k\<close>.
  \<open>loop_head\<close> names the states in which the loop looks at a child. If the status on
  entry is not Running, the cursor is set to 0, \<open>on_enter\<close> is called and the loop starts
  at index 0 in the state that results; else it starts at the stored cursor in the state
  as it is. Every child at an index \<open>i\<close> from the start up to \<open>k\<close> was ticked by the
  dispatcher in the state in which the loop reached it, returned Failure, and the loop
  went on to \<open>i + 1\<close> with the cursor set to \<open>i + 1\<close>. At \<open>k\<close>, in the state \<open>t\<close>, the
  tick ends in one of three ways: the children are exhausted, the result is Failure and
  \<open>s'\<close> is \<open>t\<close> with \<open>status = Failure\<close> and \<open>on_exit\<close> called; or the child slot \<open>k\<close> is
  empty, the result is Error and \<open>s'\<close> is \<open>t\<close> with \<open>status = Error\<close> and \<open>on_exit\<close>
  called; or the dispatcher's tick of the child in slot \<open>k\<close> returned \<open>r\<close>, which is
  Running, Success or Error, and \<open>s'\<close> is the state that tick left with the cursor set to
  \<open>k\<close>, \<open>status = r\<close> and, unless \<open>r\<close> is Running, \<open>on_exit\<close> called. The calls of the
  node itself are listed in their order. With the cursor within the children on entry,
  exhaustion leaves it at \<open>children_count\<close>; with no children the result is Failure.
\<close>

theorem selector_tick:
  fixes s :: "'w bt_state"
  assumes "type (heap s a) = BT_SELECTOR" and "nested_within (Suc m) (heap s) a"
  shows "(status (heap s a) \<noteq> BT_RUNNING \<longrightarrow>
           loop_head BT_FAILURE (bt_tick_internal m) a s 0
             = Some (bt_call_enter (Some a) (set_current_child a 0 s)))
    \<and> (status (heap s a) = BT_RUNNING \<longrightarrow>
           loop_head BT_FAILURE (bt_tick_internal m) a s (unat (current_child (heap s a)))
             = Some s)
    \<and> (\<exists>r s' k t evs tail.
      bt_tick (Suc m) (Some a) s = Some (r, s')
    \<and> status (heap s' a) = r
    \<and> unat (current_child (heap s' a)) = k
    \<and> entry_index (heap s) a \<le> k
    \<and> (\<forall>i. entry_index (heap s) a \<le> i \<and> i < k \<longrightarrow>
          (\<exists>ti c u. loop_head BT_FAILURE (bt_tick_internal m) a s i = Some ti
             \<and> i < unat (children_count (heap s a)) \<and> child_slot (heap s) a i = Some c
             \<and> bt_tick_internal m (Some c) ti = Some (BT_FAILURE, u)
             \<and> loop_head BT_FAILURE (bt_tick_internal m) a s (Suc i)
                 = Some (set_current_child a (of_nat (Suc i))
                     (record_call (ChildTick a i BT_FAILURE) u))))
    \<and> loop_head BT_FAILURE (bt_tick_internal m) a s k = Some t
    \<and> unat (current_child (heap t a)) = k
    \<and> calls s' = calls s @ evs
    \<and> own_calls a evs =
         enter_call (heap s) a @ passed BT_FAILURE a (entry_index (heap s) a) k @ tail
           @ exit_call (heap s) a r
    \<and> ((r = BT_FAILURE \<and> tail = []
          \<and> k = max (entry_index (heap s) a) (unat (children_count (heap s a)))
          \<and> s' = bt_call_exit (Some a) (set_status a BT_FAILURE t))
      \<or> (r = BT_ERROR \<and> tail = []
          \<and> k < unat (children_count (heap s a)) \<and> child_slot (heap s) a k = None
          \<and> s' = bt_call_exit (Some a) (set_status a BT_ERROR t))
      \<or> (\<exists>c u. r \<noteq> BT_FAILURE \<and> tail = [ChildTick a k r]
          \<and> k < unat (children_count (heap s a)) \<and> child_slot (heap s) a k = Some c
          \<and> bt_tick_internal m (Some c) t = Some (r, u)
          \<and> s' = (if r = BT_RUNNING
                   then set_status a r (set_current_child a (of_nat k)
                          (record_call (ChildTick a k r) u))
                   else bt_call_exit (Some a)
                          (set_status a r (set_current_child a (of_nat k)
                            (record_call (ChildTick a k r) u))))))
    \<and> (current_child (heap s a) \<le> children_count (heap s a) \<longrightarrow> r = BT_FAILURE \<longrightarrow>
          current_child (heap s' a) = children_count (heap s a))
    \<and> (children_count (heap s a) = 0 \<longrightarrow> r = BT_FAILURE))"
proof -
  have comp: "is_composite (type (heap s a))" using assms(1) by (simp add: is_composite_def)
  have adv: "BT_FAILURE = advancing (type (heap s a))" using assms(1) by (simp add: advancing_def)
  have e1: "status (heap s a) \<noteq> BT_RUNNING \<longrightarrow>
           loop_head BT_FAILURE (bt_tick_internal m) a s 0
             = Some (bt_call_enter (Some a) (set_current_child a 0 s))"
    by (simp add: entry_index_def composite_entry_def)
  have e2: "status (heap s a) = BT_RUNNING \<longrightarrow>
           loop_head BT_FAILURE (bt_tick_internal m) a s (unat (current_child (heap s a)))
             = Some s"
    using loop_head_entry [of BT_FAILURE "bt_tick_internal m" a s]
    by (auto simp: entry_index_def composite_entry_def)
  from composite_node_full [OF comp assms(2) adv] obtain r s' k t evs tail where
    run: "bt_tick (Suc m) (Some a) s = Some (r, s')" and
    k: "unat (current_child (heap s' a)) = k" and
    rest: "bt_tick (Suc m) (Some a) s = Some (r, s')
    \<and> status (heap s' a) = r
    \<and> unat (current_child (heap s' a)) = k
    \<and> entry_index (heap s) a \<le> k
    \<and> (\<forall>i. entry_index (heap s) a \<le> i \<and> i < k \<longrightarrow>
          (\<exists>ti c u. loop_head BT_FAILURE (bt_tick_internal m) a s i = Some ti
             \<and> i < unat (children_count (heap s a)) \<and> child_slot (heap s) a i = Some c
             \<and> bt_tick_internal m (Some c) ti = Some (BT_FAILURE, u)
             \<and> loop_head BT_FAILURE (bt_tick_internal m) a s (Suc i)
                 = Some (set_current_child a (of_nat (Suc i))
                     (record_call (ChildTick a i BT_FAILURE) u))))
    \<and> loop_head BT_FAILURE (bt_tick_internal m) a s k = Some t
    \<and> unat (current_child (heap t a)) = k
    \<and> calls s' = calls s @ evs
    \<and> own_calls a evs =
         enter_call (heap s) a @ passed BT_FAILURE a (entry_index (heap s) a) k @ tail
           @ exit_call (heap s) a r" and
    ending: "(r = BT_FAILURE \<and> tail = []
          \<and> k = max (entry_index (heap s) a) (unat (children_count (heap s a)))
          \<and> s' = bt_call_exit (Some a) (set_status a BT_FAILURE t))
      \<or> (r = BT_ERROR \<and> tail = []
          \<and> k < unat (children_count (heap s a)) \<and> child_slot (heap s) a k = None
          \<and> s' = bt_call_exit (Some a) (set_status a BT_ERROR t))
      \<or> (\<exists>c u. r \<noteq> BT_FAILURE \<and> tail = [ChildTick a k r]
          \<and> k < unat (children_count (heap s a)) \<and> child_slot (heap s) a k = Some c
          \<and> bt_tick_internal m (Some c) t = Some (r, u)
          \<and> s' = (if r = BT_RUNNING
                   then set_status a r (set_current_child a (of_nat k)
                          (record_call (ChildTick a k r) u))
                   else bt_call_exit (Some a)
                          (set_status a r (set_current_child a (of_nat k)
                            (record_call (ChildTick a k r) u)))))"
    by blast
  have full: "current_child (heap s a) \<le> children_count (heap s a) \<longrightarrow> r = BT_FAILURE \<longrightarrow>
      current_child (heap s' a) = children_count (heap s a)"
    using ending k
    by (auto simp: entry_index_def word_le_nat_alt max_def word_unat_eq_iff split: if_splits)
  have none: "children_count (heap s a) = 0 \<longrightarrow> r = BT_FAILURE"
    using ending by auto
  from rest ending full none have "\<exists>r s' k t evs tail.
      bt_tick (Suc m) (Some a) s = Some (r, s')
    \<and> status (heap s' a) = r
    \<and> unat (current_child (heap s' a)) = k
    \<and> entry_index (heap s) a \<le> k
    \<and> (\<forall>i. entry_index (heap s) a \<le> i \<and> i < k \<longrightarrow>
          (\<exists>ti c u. loop_head BT_FAILURE (bt_tick_internal m) a s i = Some ti
             \<and> i < unat (children_count (heap s a)) \<and> child_slot (heap s) a i = Some c
             \<and> bt_tick_internal m (Some c) ti = Some (BT_FAILURE, u)
             \<and> loop_head BT_FAILURE (bt_tick_internal m) a s (Suc i)
                 = Some (set_current_child a (of_nat (Suc i))
                     (record_call (ChildTick a i BT_FAILURE) u))))
    \<and> loop_head BT_FAILURE (bt_tick_internal m) a s k = Some t
    \<and> unat (current_child (heap t a)) = k
    \<and> calls s' = calls s @ evs
    \<and> own_calls a evs =
         enter_call (heap s) a @ passed BT_FAILURE a (entry_index (heap s) a) k @ tail
           @ exit_call (heap s) a r
    \<and> ((r = BT_FAILURE \<and> tail = []
          \<and> k = max (entry_index (heap s) a) (unat (children_count (heap s a)))
          \<and> s' = bt_call_exit (Some a) (set_status a BT_FAILURE t))
      \<or> (r = BT_ERROR \<and> tail = []
          \<and> k < unat (children_count (heap s a)) \<and> child_slot (heap s) a k = None
          \<and> s' = bt_call_exit (Some a) (set_status a BT_ERROR t))
      \<or> (\<exists>c u. r \<noteq> BT_FAILURE \<and> tail = [ChildTick a k r]
          \<and> k < unat (children_count (heap s a)) \<and> child_slot (heap s) a k = Some c
          \<and> bt_tick_internal m (Some c) t = Some (r, u)
          \<and> s' = (if r = BT_RUNNING
                   then set_status a r (set_current_child a (of_nat k)
                          (record_call (ChildTick a k r) u))
                   else bt_call_exit (Some a)
                          (set_status a r (set_current_child a (of_nat k)
                            (record_call (ChildTick a k r) u))))))
    \<and> (current_child (heap s a) \<le> children_count (heap s a) \<longrightarrow> r = BT_FAILURE \<longrightarrow>
          current_child (heap s' a) = children_count (heap s a))
    \<and> (children_count (heap s a) = 0 \<longrightarrow> r = BT_FAILURE)"
    by (intro exI [of _ r] exI [of _ s'] exI [of _ k] exI [of _ t] exI [of _ evs]
        exI [of _ tail]) simp
  with e1 e2 show ?thesis by simp
qed

theorem selector_tick_witness:
  "type (heap sel_demo 0) = BT_SELECTOR \<and> nested_within (Suc 1) (heap sel_demo) 0
   \<and> map_option fst (bt_tick (Suc 1) (Some 0) sel_demo) = Some BT_SUCCESS
   \<and> loop_head BT_FAILURE (bt_tick_internal 1) 0 sel_demo 0
        = Some (bt_call_enter (Some 0) (set_current_child 0 0 sel_demo))
   \<and> (\<exists>r s' k t evs tail.
      bt_tick (Suc 1) (Some 0) sel_demo = Some (r, s')
    \<and> status (heap s' 0) = r
    \<and> unat (current_child (heap s' 0)) = k
    \<and> entry_index (heap sel_demo) 0 \<le> k
    \<and> (\<forall>i. entry_index (heap sel_demo) 0 \<le> i \<and> i < k \<longrightarrow>
          (\<exists>ti c u. loop_head BT_FAILURE (bt_tick_internal 1) 0 sel_demo i = Some ti
             \<and> i < unat (children_count (heap sel_demo 0)) \<and> child_slot (heap sel_demo) 0 i = Some c
             \<and> bt_tick_internal 1 (Some c) ti = Some (BT_FAILURE, u)
             \<and> loop_head BT_FAILURE (bt_tick_internal 1) 0 sel_demo (Suc i)
                 = Some (set_current_child 0 (of_nat (Suc i))
                     (record_call (ChildTick 0 i BT_FAILURE) u))))
    \<and> loop_head BT_FAILURE (bt_tick_internal 1) 0 sel_demo k = Some t
    \<and> unat (current_child (heap t 0)) = k
    \<and> calls s' = calls sel_demo @ evs
    \<and> own_calls 0 evs =
         enter_call (heap sel_demo) 0 @ passed BT_FAILURE 0 (entry_index (heap sel_demo) 0) k @ tail
           @ exit_call (heap sel_demo) 0 r
    \<and> ((r = BT_FAILURE \<and> tail = []
          \<and> k = max (entry_index (heap sel_demo) 0) (unat (children_count (heap sel_demo 0)))
          \<and> s' = bt_call_exit (Some 0) (set_status 0 BT_FAILURE t))
      \<or> (r = BT_ERROR \<and> tail = []
          \<and> k < unat (children_count (heap sel_demo 0)) \<and> child_slot (heap sel_demo) 0 k = None
          \<and> s' = bt_call_exit (Some 0) (set_status 0 BT_ERROR t))
      \<or> (\<exists>c u. r \<noteq> BT_FAILURE \<and> tail = [ChildTick 0 k r]
          \<and> k < unat (children_count (heap sel_demo 0)) \<and> child_slot (heap sel_demo) 0 k = Some c
          \<and> bt_tick_internal 1 (Some c) t = Some (r, u)
          \<and> s' = (if r = BT_RUNNING
                   then set_status 0 r (set_current_child 0 (of_nat k)
                          (record_call (ChildTick 0 k r) u))
                   else bt_call_exit (Some 0)
                          (set_status 0 r (set_current_child 0 (of_nat k)
                            (record_call (ChildTick 0 k r) u)))))))"
proof -
  have ty: "type (heap sel_demo 0) = BT_SELECTOR"
    by (simp add: eval_defs)
  have nest: "nested_within (Suc 1) (heap sel_demo) 0"
    by (simp add: eval_defs kids_def List.map_filter_def)
  have st: "status (heap sel_demo 0) \<noteq> BT_RUNNING"
    by (simp add: eval_defs)
  have res: "map_option fst (bt_tick (Suc 1) (Some 0) sel_demo) = Some BT_SUCCESS"
    by (simp add: eval_defs)
  from selector_tick [OF ty nest] st
  have "loop_head BT_FAILURE (bt_tick_internal 1) 0 sel_demo 0
        = Some (bt_call_enter (Some 0) (set_current_child 0 0 sel_demo))
   \<and> (\<exists>r s' k t evs tail.
      bt_tick (Suc 1) (Some 0) sel_demo = Some (r, s')
    \<and> status (heap s' 0) = r
    \<and> unat (current_child (heap s' 0)) = k
    \<and> entry_index (heap sel_demo) 0 \<le> k
    \<and> (\<forall>i. entry_index (heap sel_demo) 0 \<le> i \<and> i < k \<longrightarrow>
          (\<exists>ti c u. loop_head BT_FAILURE (bt_tick_internal 1) 0 sel_demo i = Some ti
             \<and> i < unat (children_count (heap sel_demo 0)) \<and> child_slot (heap sel_demo) 0 i = Some c
             \<and> bt_tick_internal 1 (Some c) ti = Some (BT_FAILURE, u)
             \<and> loop_head BT_FAILURE (bt_tick_internal 1) 0 sel_demo (Suc i)
                 = Some (set_current_child 0 (of_nat (Suc i))
                     (record_call (ChildTick 0 i BT_FAILURE) u))))
    \<and> loop_head BT_FAILURE (bt_tick_internal 1) 0 sel_demo k = Some t
    \<and> unat (current_child (heap t 0)) = k
    \<and> calls s' = calls sel_demo @ evs
    \<and> own_calls 0 evs =
         enter_call (heap sel_demo) 0 @ passed BT_FAILURE 0 (entry_index (heap sel_demo) 0) k @ tail
           @ exit_call (heap sel_demo) 0 r
    \<and> ((r = BT_FAILURE \<and> tail = []
          \<and> k = max (entry_index (heap sel_demo) 0) (unat (children_count (heap sel_demo 0)))
          \<and> s' = bt_call_exit (Some 0) (set_status 0 BT_FAILURE t))
      \<or> (r = BT_ERROR \<and> tail = []
          \<and> k < unat (children_count (heap sel_demo 0)) \<and> child_slot (heap sel_demo) 0 k = None
          \<and> s' = bt_call_exit (Some 0) (set_status 0 BT_ERROR t))
      \<or> (\<exists>c u. r \<noteq> BT_FAILURE \<and> tail = [ChildTick 0 k r]
          \<and> k < unat (children_count (heap sel_demo 0)) \<and> child_slot (heap sel_demo) 0 k = Some c
          \<and> bt_tick_internal 1 (Some c) t = Some (r, u)
          \<and> s' = (if r = BT_RUNNING
                   then set_status 0 r (set_current_child 0 (of_nat k)
                          (record_call (ChildTick 0 k r) u))
                   else bt_call_exit (Some 0)
                          (set_status 0 r (set_current_child 0 (of_nat k)
                            (record_call (ChildTick 0 k r) u)))))))"
    by blast
  with ty nest res show ?thesis by simp
qed

text \<open>
  C4. An Inverter node whose \<open>children_count\<close> is not 1 returns Error on every tick and
  the state stays as it was, so no child is ticked and no hook is called. With
  \<open>children_count = 1\<close> and an empty child slot the tick returns Error as well, the nodes
  stay as they were and the only call is the \<open>on_enter\<close> hook. With one child, whose tick
  returns \<open>cs\<close>, the tick returns \<open>inverted cs\<close> and stores it in \<open>status\<close>, where
  \<open>inverted\<close> swaps Success and Failure and leaves Running and Error as they are. In a
  tree nested no deeper than the bound, the tick returns.
\<close>

theorem inverter_tick:
  fixes s :: "'w bt_state"
  assumes "type (heap s a) = BT_INVERTER"
  shows "(children_count (heap s a) \<noteq> 1 \<longrightarrow> bt_tick (Suc n) (Some a) s = Some (BT_ERROR, s))
    \<and> (children_count (heap s a) = 1 \<and> bt_child_at s (Some a) 0 = None \<longrightarrow>
          (\<exists>s'. bt_tick (Suc n) (Some a) s = Some (BT_ERROR, s') \<and> heap s' = heap s
             \<and> calls s' = calls s @ enter_call (heap s) a))
    \<and> (\<forall>c cs s2. children_count (heap s a) = 1 \<and> bt_child_at s (Some a) 0 = Some c
          \<and> bt_tick_internal n (Some c) (inverter_entry a s) = Some (cs, s2) \<longrightarrow>
          (\<exists>s'. bt_tick (Suc n) (Some a) s = Some (inverted cs, s')
             \<and> status (heap s' a) = inverted cs))
    \<and> inverted BT_SUCCESS = BT_FAILURE \<and> inverted BT_FAILURE = BT_SUCCESS
    \<and> inverted BT_RUNNING = BT_RUNNING \<and> inverted BT_ERROR = BT_ERROR
    \<and> (nested_within (Suc n) (heap s) a \<longrightarrow> (\<exists>r s'. bt_tick (Suc n) (Some a) s = Some (r, s')))"
proof -
  have tick: "bt_tick (Suc n) (Some a) s = bt_tick_inverter (bt_tick_internal n) (Some a) s"
    using assms by (simp add: bt_tick_def)
  have "children_count (heap s a) \<noteq> 1 \<longrightarrow> bt_tick (Suc n) (Some a) s = Some (BT_ERROR, s)"
    by (simp add: tick bt_tick_inverter_steps)
  moreover have "children_count (heap s a) = 1 \<and> bt_child_at s (Some a) 0 = None \<longrightarrow>
      (\<exists>s'. bt_tick (Suc n) (Some a) s = Some (BT_ERROR, s') \<and> heap s' = heap s
         \<and> calls s' = calls s @ enter_call (heap s) a)"
    by (simp add: tick bt_tick_inverter_steps inverter_entry_def enter_call_def calls_call_enter)
  moreover have "\<exists>s'. bt_tick (Suc n) (Some a) s = Some (inverted cs, s')
         \<and> status (heap s' a) = inverted cs"
    if "children_count (heap s a) = 1" "bt_child_at s (Some a) 0 = Some c"
      "bt_tick_internal n (Some c) (inverter_entry a s) = Some (cs, s2)" for c cs s2
    using that by (simp add: tick bt_tick_inverter_steps inverter_finish_def Let_def)
  moreover have "inverted BT_SUCCESS = BT_FAILURE" "inverted BT_FAILURE = BT_SUCCESS"
    "inverted BT_RUNNING = BT_RUNNING" "inverted BT_ERROR = BT_ERROR"
    by (simp_all add: inverted_def)
  moreover have "nested_within (Suc n) (heap s) a \<longrightarrow>
      (\<exists>r s'. bt_tick (Suc n) (Some a) s = Some (r, s'))"
    using bt_tick_internal_returns [of "Suc n" s a] by (simp add: bt_tick_def)
  ultimately show ?thesis by blast
qed

theorem inverter_tick_witness:
  "type (heap inv_demo 0) = BT_INVERTER \<and> children_count (heap inv_demo 0) = 1
   \<and> bt_child_at inv_demo (Some 0) 0 = Some 1
   \<and> map_option fst (bt_tick_internal 1 (Some 1) (inverter_entry 0 inv_demo)) = Some BT_SUCCESS
   \<and> (\<exists>s'. bt_tick (Suc 1) (Some 0) inv_demo = Some (BT_FAILURE, s')
         \<and> status (heap s' 0) = BT_FAILURE)
   \<and> type (heap inv_bad 0) = BT_INVERTER \<and> children_count (heap inv_bad 0) = 0
   \<and> bt_tick (Suc 0) (Some 0) inv_bad = Some (BT_ERROR, inv_bad)"
proof -
  have ty: "type (heap inv_demo 0) = BT_INVERTER" by (simp add: eval_defs)
  have cnt: "children_count (heap inv_demo 0) = 1" by (simp add: eval_defs)
  have slot: "bt_child_at inv_demo (Some 0) 0 = Some 1" by (simp add: eval_defs)
  have "map_option fst (bt_tick_internal 1 (Some 1) (inverter_entry 0 inv_demo)) = Some BT_SUCCESS"
    by (simp add: eval_defs)
  then obtain s2 where
    child: "bt_tick_internal 1 (Some 1) (inverter_entry 0 inv_demo) = Some (BT_SUCCESS, s2)"
    by auto
  have ty0: "type (heap inv_bad 0) = BT_INVERTER" by (simp add: eval_defs)
  have cnt0: "children_count (heap inv_bad 0) = 0" by (simp add: eval_defs)
  from inverter_tick [OF ty, of 1] cnt slot child
  have "\<exists>s'. bt_tick (Suc 1) (Some 0) inv_demo = Some (inverted BT_SUCCESS, s')
         \<and> status (heap s' 0) = inverted BT_SUCCESS"
    by blast
  moreover from inverter_tick [OF ty, of 1] have "inverted BT_SUCCESS = BT_FAILURE" by blast
  moreover from inverter_tick [OF ty0, of 0] cnt0
  have "bt_tick (Suc 0) (Some 0) inv_bad = Some (BT_ERROR, inv_bad)" by simp
  ultimately show ?thesis using ty cnt slot child ty0 cnt0 by simp
qed









text \<open>
  C8. Let the loop of a Sequence or Selector node \<open>a\<close> reach the child at index \<open>i\<close> in
  the state \<open>t\<close>, and let the dispatcher's tick of that child in \<open>t\<close> return Error and
  the state \<open>u\<close>. Then the tick of \<open>a\<close> returns Error, and its final state is \<open>u\<close> with
  the return of the child logged, the cursor set to \<open>i\<close>, \<open>status = Error\<close> and \<open>on_exit\<close>
  called: nothing else happens after the child's return. So every other node is as the
  child's tick left it, and the loop reaches no index after \<open>i\<close>.
\<close>

theorem child_error_stops_composite:
  fixes s :: "'w bt_state"
  assumes "type (heap s a) = BT_SEQUENCE \<or> type (heap s a) = BT_SELECTOR"
    and "loop_head (advancing (type (heap s a))) (bt_tick_internal m) a s i = Some t"
    and "i < unat (children_count (heap s a))"
    and "child_slot (heap s) a i = Some c"
    and "bt_tick_internal m (Some c) t = Some (BT_ERROR, u)"
  shows "bt_tick (Suc m) (Some a) s
      = Some (BT_ERROR,
          bt_call_exit (Some a)
            (set_status a BT_ERROR
              (set_current_child a (of_nat i) (record_call (ChildTick a i BT_ERROR) u))))
    \<and> (\<exists>s'. bt_tick (Suc m) (Some a) s = Some (BT_ERROR, s')
          \<and> status (heap s' a) = BT_ERROR
          \<and> unat (current_child (heap s' a)) = i
          \<and> calls s' = calls u @ ChildTick a i BT_ERROR # exit_call (heap s) a BT_ERROR
          \<and> (\<forall>x. x \<noteq> a \<longrightarrow> heap s' x = heap u x))
    \<and> (\<forall>j. i < j \<longrightarrow>
          loop_head (advancing (type (heap s a))) (bt_tick_internal m) a s j = None)"
proof -
  let ?adv = "advancing (type (heap s a))"
  let ?tk = "bt_tick_internal m :: addr option \<Rightarrow> 'w bt_state \<Rightarrow> _"
  let ?s' = "bt_call_exit (Some a)
            (set_status a BT_ERROR
              (set_current_child a (of_nat i) (record_call (ChildTick a i BT_ERROR) u)))"
  have tk: "tk_frames ?tk" by (rule bt_tick_internal_frames)
  have comp: "is_composite (type (heap s a))" using assms(1) by (simp add: is_composite_def)
  have adv: "BT_ERROR \<noteq> ?adv" by (simp add: advancing_def)
  note tree = loop_head_tree [OF tk assms(2)]
  have fin: "composite_end ?adv ?tk a i t = Some (BT_ERROR, ?s')"
    using assms(3,4,5) adv by (simp add: composite_end_def tree)
  have run: "bt_tick (Suc m) (Some a) s = Some (BT_ERROR, ?s')"
    by (rule composite_node_from_head [OF comp assms(2) fin])
  have ex: "on_exit (heap u a) = on_exit (heap s a)"
    using only_bookkeeping_fields(6) [OF frame_bookkeeping [OF tk_framesD [OF tk assms(5)], of a]]
      tree(3) by simp
  have cur: "unat (current_child (heap ?s' a)) = i"
    using word16_of_nat(1) [OF assms(3)] by simp
  have calls: "calls ?s' = calls u @ ChildTick a i BT_ERROR # exit_call (heap s) a BT_ERROR"
    using ex by (simp add: calls_call_exit exit_call_def)
  have later: "loop_head ?adv ?tk a s j = None" if "i < j" for j
    by (rule loop_head_none_after [OF tk assms(2) _ that]) (simp add: fin)
  have "status (heap ?s' a) = BT_ERROR" by simp
  moreover have "\<forall>x. x \<noteq> a \<longrightarrow> heap ?s' x = heap u x" by simp
  ultimately show ?thesis using run cur calls later by simp
qed

theorem child_error_stops_composite_witness:
  "type (heap err_demo 0) = BT_SELECTOR
   \<and> loop_head BT_FAILURE (bt_tick_internal 1) 0 err_demo 0
       = Some (bt_call_enter (Some 0) (set_current_child 0 0 err_demo))
   \<and> 0 < unat (children_count (heap err_demo 0))
   \<and> child_slot (heap err_demo) 0 0 = Some 1
   \<and> (\<exists>u. bt_tick_internal 1 (Some 1) (bt_call_enter (Some 0) (set_current_child 0 0 err_demo))
            = Some (BT_ERROR, u)
        \<and> bt_tick (Suc 1) (Some 0) err_demo
            = Some (BT_ERROR,
                bt_call_exit (Some 0)
                  (set_status 0 BT_ERROR
                    (set_current_child 0 (of_nat 0) (record_call (ChildTick 0 0 BT_ERROR) u)))))
   \<and> loop_head BT_FAILURE (bt_tick_internal 1) 0 err_demo 1 = None
   \<and> map_option (calls \<circ> snd) (bt_tick (Suc 1) (Some 0) err_demo)
       = Some [ChildTick 0 0 BT_ERROR]"
proof -
  let ?t = "bt_call_enter (Some 0) (set_current_child 0 0 err_demo)"
  have ty: "type (heap err_demo 0) = BT_SELECTOR"
    by (simp add: eval_defs)
  then have ty': "type (heap err_demo 0) = BT_SEQUENCE \<or> type (heap err_demo 0) = BT_SELECTOR"
    by simp
  have adv: "advancing (type (heap err_demo 0)) = BT_FAILURE"
    by (simp add: ty advancing_def)
  have st: "status (heap err_demo 0) \<noteq> BT_RUNNING"
    by (simp add: eval_defs)
  have head: "loop_head (advancing (type (heap err_demo 0))) (bt_tick_internal 1) 0 err_demo 0
      = Some ?t"
    using st by (simp add: entry_index_def composite_entry_def)
  have cnt: "0 < unat (children_count (heap err_demo 0))"
    by (simp add: err_demo_def bt_init_def)
  have slot: "child_slot (heap err_demo) 0 0 = Some 1"
    by (simp add: err_demo_def bt_init_def child_slot_def seq_children_def)
  have "map_option fst (bt_tick_internal 1 (Some 1) ?t) = Some BT_ERROR"
    by (simp add: eval_defs)
  then obtain u where child: "bt_tick_internal 1 (Some 1) ?t = Some (BT_ERROR, u)"
    by auto
  have log: "map_option (calls \<circ> snd) (bt_tick (Suc 1) (Some 0) err_demo)
       = Some [ChildTick 0 0 BT_ERROR]"
    by (simp add: eval_defs)
  note law = child_error_stops_composite [OF ty' head cnt slot child]
  from law have run: "bt_tick (Suc 1) (Some 0) err_demo
            = Some (BT_ERROR,
                bt_call_exit (Some 0)
                  (set_status 0 BT_ERROR
                    (set_current_child 0 (of_nat 0) (record_call (ChildTick 0 0 BT_ERROR) u))))"
    by (rule conjunct1)
  from law have "\<forall>j. 0 < j \<longrightarrow>
      loop_head (advancing (type (heap err_demo 0))) (bt_tick_internal 1) 0 err_demo j = None"
    by (elim conjE)
  then have "loop_head (advancing (type (heap err_demo 0))) (bt_tick_internal 1) 0 err_demo 1
      = None"
    using zero_less_one by blast
  then show ?thesis using run ty head cnt slot child log unfolding adv by blast
qed

text \<open>
  C9. The cursor of a node is at most its \<open>children_count\<close> after \<^verbatim>\<open>bt_init\<close>, which
  sets it to 0, and \<^verbatim>\<open>bt_init\<close> of a node and a tick of any node keep it so for every
  node \<open>x\<close>. After the tick of a Sequence or Selector node the cursor equals
  \<open>children_count\<close> exactly when the children are exhausted, that is, when the children
  ticked in this tick are all those from the entry index to the last one and each returned
  the advancing status; and that is exactly when the result is the advancing status.
\<close>

theorem cursor_invariant:
  fixes s :: "'w bt_state"
  shows "current_child (heap (bt_init (Some a) ty f chs cnt ud s) a) = 0
    \<and> (cursor_ok (heap s) x \<longrightarrow> cursor_ok (heap (bt_init node ty f chs cnt ud s)) x)
    \<and> (cursor_ok (heap s) x \<and> bt_tick n root s = Some (r, s') \<longrightarrow> cursor_ok (heap s') x)
    \<and> (cursor_ok (heap s) a \<and> is_composite (type (heap s a)) \<and> nested_within n (heap s) a
        \<and> bt_tick n (Some a) s = Some (r, s') \<and> calls s' = calls s @ evs \<longrightarrow>
          (current_child (heap s' a) = children_count (heap s' a)
             \<longleftrightarrow> filter is_child_return (own_calls a evs)
                   = passed (advancing (type (heap s a))) a (entry_index (heap s) a)
                       (unat (children_count (heap s a))))
        \<and> (current_child (heap s' a) = children_count (heap s' a)
             \<longleftrightarrow> r = advancing (type (heap s a))))"
proof -
  have init: "current_child (heap (bt_init (Some a) ty f chs cnt ud s) a) = 0"
    by (simp add: bt_init_def)
  have keep_init: "cursor_ok (heap (bt_init node ty f chs cnt ud s)) x" if "cursor_ok (heap s) x"
    using that by (cases node) (simp_all add: bt_init_def cursor_ok_def)
  have keep_tick: "cursor_ok (heap s') x" if "cursor_ok (heap s) x" "bt_tick n root s = Some (r, s')"
  proof (cases root)
    case None
    with that show ?thesis by (simp add: bt_tick_def)
  next
    case (Some b)
    with that(2) have "bt_tick_internal n (Some b) s = Some (r, s')" by (simp add: bt_tick_def)
    then show ?thesis using that(1) by (rule bt_tick_internal_cursor)
  qed
  have exhausted:
    "(current_child (heap s' a) = children_count (heap s' a)
         \<longleftrightarrow> filter is_child_return (own_calls a evs)
               = passed (advancing (type (heap s a))) a (entry_index (heap s) a)
                   (unat (children_count (heap s a))))
      \<and> (current_child (heap s' a) = children_count (heap s' a)
         \<longleftrightarrow> r = advancing (type (heap s a)))"
    if ok: "cursor_ok (heap s) a" and comp: "is_composite (type (heap s a))"
      and nest: "nested_within n (heap s) a"
      and run: "bt_tick n (Some a) s = Some (r, s')" and c: "calls s' = calls s @ evs"
  proof -
    let ?adv = "advancing (type (heap s a))"
    let ?i = "entry_index (heap s) a"
    let ?cnt = "unat (children_count (heap s a))"
    from composite_node_tick [OF comp nest] run c obtain k tail where
      f: "frame (reach (heap s) a) s s'" and k: "unat (current_child (heap s' a)) = k" and
      le: "?i \<le> k" and
      own: "own_calls a evs =
           enter_call (heap s) a @ passed ?adv a ?i k @ tail @ exit_call (heap s) a r" and
      out: "composite_outcome ?adv (heap s) a k r tail"
      by auto
    have cnt': "children_count (heap s' a) = children_count (heap s a)"
      using only_bookkeeping_fields(4) [OF frame_bookkeeping [OF f]] .
    have start: "?i \<le> ?cnt"
      using ok by (simp add: entry_index_def cursor_ok_def word_le_nat_alt)
    have tail: "tail = [] \<or> tail = [ChildTick a k r]"
      using out by (auto simp: composite_outcome_def)
    have rets: "filter is_child_return (own_calls a evs) = passed ?adv a ?i k @ tail"
      using own tail by (rule child_returns_of_own_calls)
    have eq: "current_child (heap s' a) = children_count (heap s' a) \<longleftrightarrow> k = ?cnt"
      by (simp add: cnt' word_unat_eq_iff k)
    from out show ?thesis
      unfolding composite_outcome_def
    proof (elim disjE conjE)
      assume "r = ?adv" "tail = []" "k = max ?i ?cnt"
      with start show ?thesis unfolding eq rets by (simp add: max_def)
    next
      assume "r = BT_ERROR" "tail = []" "k < ?cnt"
      moreover have "BT_ERROR \<noteq> ?adv" by (simp add: advancing_def)
      ultimately show ?thesis
        unfolding eq rets using passed_eq_iff [OF le start, of ?adv a] by auto
    next
      assume "r \<noteq> ?adv" "tail = [ChildTick a k r]" "k < ?cnt"
      then show ?thesis
        unfolding eq rets using passed_stopped_neq [OF _ le, of r ?adv a ?cnt] by auto
    qed
  qed
  from init keep_init keep_tick exhausted show ?thesis by blast
qed

theorem cursor_invariant_witness:
  "cursor_ok (heap demo) 0 \<and> is_composite (type (heap demo 0)) \<and> nested_within 2 (heap demo) 0
   \<and> bt_tick 2 (Some 0) demo \<noteq> None
   \<and> cursor_ok (heap (snd (the (bt_tick 2 (Some 0) demo)))) 0
   \<and> fst (the (bt_tick 2 (Some 0) demo)) = BT_RUNNING
   \<and> current_child (heap (snd (the (bt_tick 2 (Some 0) demo))) 0)
       \<noteq> children_count (heap (snd (the (bt_tick 2 (Some 0) demo))) 0)"
proof -
  have ok: "cursor_ok (heap demo) 0" by (simp add: eval_defs cursor_ok_def)
  have comp: "is_composite (type (heap demo 0))" by (simp add: eval_defs is_composite_def)
  have adv: "advancing (type (heap demo 0)) = BT_SUCCESS" by (simp add: eval_defs advancing_def)
  have nest: "nested_within 2 (heap demo) 0"
    by (simp add: eval_defs kids_def List.map_filter_def)
  have "map_option fst (bt_tick 2 (Some 0) demo) = Some BT_RUNNING"
    by (simp add: eval_defs)
  then obtain s' where run: "bt_tick 2 (Some 0) demo = Some (BT_RUNNING, s')"
    by auto
  from frame_calls [OF bt_tick_internal_frame, of 2 0 demo BT_RUNNING s'] run
  obtain evs where c: "calls s' = calls demo @ evs"
    by (auto simp: bt_tick_def)
  from cursor_invariant [where s = demo and a = 0 and x = 0 and n = 2 and root = "Some 0"
      and r = BT_RUNNING and s' = s' and evs = evs]
    ok comp nest run c adv
  have "cursor_ok (heap s') 0" "current_child (heap s' 0) \<noteq> children_count (heap s' 0)"
    by auto
  with ok comp nest run show ?thesis by simp
qed

text \<open>
  C10. A call of \<open>bt_tick\<close> leaves the fields \<open>type\<close>, \<open>tick\<close>, \<open>children\<close>,
  \<open>children_count\<close>, \<open>on_enter\<close>, \<open>on_exit\<close>, \<open>time_anchor_ms\<close>, \<open>user_data\<close> and
  \<open>blackboard\<close> of every node as they were, and changes no field at all of a node that is
  neither the ticked node nor one of its descendants; a tick of the null pointer changes
  nothing. (Callbacks and hooks act on the user's state only.)
\<close>

theorem bt_tick_writes_only_status_and_cursor:
  fixes s :: "'w bt_state"
  assumes "bt_tick n root s = Some (r, s')"
  shows "type (heap s' x) = type (heap s x)
    \<and> tick (heap s' x) = tick (heap s x)
    \<and> children (heap s' x) = children (heap s x)
    \<and> children_count (heap s' x) = children_count (heap s x)
    \<and> on_enter (heap s' x) = on_enter (heap s x)
    \<and> on_exit (heap s' x) = on_exit (heap s x)
    \<and> time_anchor_ms (heap s' x) = time_anchor_ms (heap s x)
    \<and> user_data (heap s' x) = user_data (heap s x)
    \<and> blackboard (heap s' x) = blackboard (heap s x)
    \<and> (\<forall>a. root = Some a \<longrightarrow> x \<notin> reach (heap s) a \<longrightarrow> heap s' x = heap s x)
    \<and> (root = None \<longrightarrow> s' = s)"
proof (cases root)
  case None
  with assms have "s' = s" by (simp add: bt_tick_def)
  with None show ?thesis by simp
next
  case (Some a)
  with assms have "bt_tick_internal n (Some a) s = Some (r, s')"
    by (simp add: bt_tick_def)
  then have f: "frame (reach (heap s) a) s s'"
    by (rule bt_tick_internal_frame)
  have "only_bookkeeping (heap s x) (heap s' x)"
    using f by (rule frame_bookkeeping)
  note fields = only_bookkeeping_fields [OF this]
  have "x \<notin> reach (heap s) a \<Longrightarrow> heap s' x = heap s x"
    using f by (rule frame_heap_outside)
  with fields Some show ?thesis by simp
qed

theorem bt_tick_writes_only_status_and_cursor_witness:
  "bt_tick 2 (Some 0) demo \<noteq> None
   \<and> children (heap (snd (the (bt_tick 2 (Some 0) demo))) 0) = Some seq_children
   \<and> children_count (heap (snd (the (bt_tick 2 (Some 0) demo))) 0) = 2
   \<and> type (heap (snd (the (bt_tick 2 (Some 0) demo))) 0) = BT_SEQUENCE
   \<and> heap (snd (the (bt_tick 2 (Some 0) demo))) 7 = heap demo 7"
proof -
  have fst: "map_option fst (bt_tick 2 (Some 0) demo) = Some BT_RUNNING"
    by (simp add: eval_defs)
  then obtain s' where run: "bt_tick 2 (Some 0) demo = Some (BT_RUNNING, s')"
    by auto
  have out: "7 \<notin> reach (heap demo) 0"
  proof
    assume "7 \<in> reach (heap demo) 0"
    then have "7 \<in> {0, 1, 2 :: nat}"
      by (induction rule: reach.induct)
        (auto simp: kids_iff eval_defs split: if_splits)
    then show False by simp
  qed
  from bt_tick_writes_only_status_and_cursor [OF run, of 7] out
  have "heap s' 7 = heap demo 7" by simp
  moreover from bt_tick_writes_only_status_and_cursor [OF run, of 0]
  have "children (heap s' 0) = children (heap demo 0)"
    "children_count (heap s' 0) = children_count (heap demo 0)"
    "type (heap s' 0) = type (heap demo 0)"
    by simp_all
  moreover have "children (heap demo 0) = Some seq_children"
    "children_count (heap demo 0) = 2" "type (heap demo 0) = BT_SEQUENCE"
    by (simp_all add: eval_defs)
  ultimately show ?thesis using run by simp
qed

end
